theory Spec2Isabelle
  imports Main "HOL-Library.Sublist" "HOL-Library.Char_ord" "HOL-Library.List_Lexorder"
begin

section \<open>Text primitives\<close>

text \<open>
  Python \<open>str\<close> values are modelled as \<open>string\<close>, each \<open>char\<close> read as one code point
  in the range 0..255. The character classes below are the ones CPython's \<open>str.strip\<close>,
  \<open>str.split\<close> and the \<open>re\<close> module use on that range: \<open>\s\<close> and \<open>strip()\<close> share
  the whitespace set, \<open>\w\<close> is "alphanumeric or underscore", \<open>\d\<close> is a decimal digit.
\<close>

definition is_space :: "char \<Rightarrow> bool" where
  "is_space c =
     (let n = (of_char c :: nat)
      in (9 \<le> n \<and> n \<le> 13) \<or> (28 \<le> n \<and> n \<le> 32) \<or> n = 133 \<or> n = 160)"

definition is_digit :: "char \<Rightarrow> bool" where
  "is_digit c = (let n = (of_char c :: nat) in 48 \<le> n \<and> n \<le> 57)"

definition is_word :: "char \<Rightarrow> bool" where
  "is_word c =
     (let n = (of_char c :: nat)
      in (48 \<le> n \<and> n \<le> 57) \<or> (65 \<le> n \<and> n \<le> 90) \<or> n = 95 \<or> (97 \<le> n \<and> n \<le> 122)
         \<or> n = 170 \<or> n = 178 \<or> n = 179 \<or> n = 181 \<or> n = 185 \<or> n = 186
         \<or> (188 \<le> n \<and> n \<le> 190) \<or> (192 \<le> n \<and> n \<le> 214)
         \<or> (216 \<le> n \<and> n \<le> 246) \<or> (248 \<le> n \<and> n \<le> 255))"

definition newline :: char where
  "newline = CHR 0x0A"

text \<open>\<open>sub in s\<close>: the substring test.\<close>

fun sub_in :: "string \<Rightarrow> string \<Rightarrow> bool" where
  "sub_in p [] = (p = [])"
| "sub_in p (c # cs) = (prefix p (c # cs) \<or> sub_in p cs)"

text \<open>
  \<open>s.split(sep)\<close> for a non-empty separator: scan from the left, cut at every
  occurrence, resume after it. \<open>acc\<close> is the current piece, reversed. (Python raises
  ValueError for an empty separator; every separator in the source is a non-empty
  literal.)
\<close>

fun split_acc :: "string \<Rightarrow> string \<Rightarrow> string \<Rightarrow> string list" where
  "split_acc sep acc [] = [rev acc]"
| "split_acc sep acc (c # cs) =
     (if prefix sep (c # cs)
      then rev acc # split_acc sep [] (drop (length sep - 1) cs)
      else split_acc sep (c # acc) cs)"

definition split_str :: "string \<Rightarrow> string \<Rightarrow> string list" where
  "split_str sep s = split_acc sep [] s"

text \<open>\<open>s.strip()\<close>: remove leading and trailing whitespace.\<close>

definition strip :: "string \<Rightarrow> string" where
  "strip s = rev (dropWhile is_space (rev (dropWhile is_space s)))"

section \<open>Protocol parser\<close>

definition final_marker :: string where
  "final_marker = ''Final Answer:''"

text \<open>\<open>assistant_message.split("Final Answer:")[-1].strip()\<close>\<close>

definition final_answer :: "string \<Rightarrow> string" where
  "final_answer msg = strip (last (split_str final_marker msg))"

text \<open>
  The specification's wording, for comparison with \<open>final_answer\<close>: everything after the
  first occurrence of the separator.
\<close>

fun spec_after_first :: "string \<Rightarrow> string \<Rightarrow> string" where
  "spec_after_first sep [] = []"
| "spec_after_first sep (c # cs) =
     (if prefix sep (c # cs) then drop (length sep) (c # cs) else spec_after_first sep cs)"

text \<open>
  \<open>re.search(r"Action:\s*(\w+):\s*(.+)", msg)\<close>, as the backtracking matcher runs it.
  A greedy quantifier tries the longest repetition first and gives characters back one
  at a time; \<open>star_counts\<close> and \<open>plus_counts\<close> list the repetition counts in that order.
  \<open>.\<close> is any character but the newline. \<open>first_some\<close> takes the first alternative
  that lets the rest of the pattern match.
\<close>

fun first_some :: "('a \<Rightarrow> 'b option) \<Rightarrow> 'a list \<Rightarrow> 'b option" where
  "first_some f [] = None"
| "first_some f (x # xs) = (case f x of Some y \<Rightarrow> Some y | None \<Rightarrow> first_some f xs)"

definition star_counts :: "(char \<Rightarrow> bool) \<Rightarrow> string \<Rightarrow> nat list" where
  "star_counts P s = rev [0 ..< Suc (length (takeWhile P s))]"

definition plus_counts :: "(char \<Rightarrow> bool) \<Rightarrow> string \<Rightarrow> nat list" where
  "plus_counts P s = rev [1 ..< Suc (length (takeWhile P s))]"

definition not_newline :: "char \<Rightarrow> bool" where
  "not_newline c = (c \<noteq> newline)"

text \<open>The match anchored at the start of \<open>s\<close>: groups 1 and 2.\<close>

definition match_action_here :: "string \<Rightarrow> (string \<times> string) option" where
  "match_action_here s =
     (if \<not> prefix ''Action:'' s then None
      else
        let r = drop 7 s in
        first_some (\<lambda>i.
          let r1 = drop i r in
          first_some (\<lambda>j.
            let name = take j r1; r2 = drop j r1 in
            if prefix '':'' r2 then
              let r3 = drop 1 r2 in
              first_some (\<lambda>k.
                let r4 = drop k r3 in
                first_some (\<lambda>l. Some (name, take l r4)) (plus_counts not_newline r4))
              (star_counts is_space r3)
            else None)
          (plus_counts is_word r1))
        (star_counts is_space r))"

text \<open>\<open>re.search\<close> tries every start position from the left, the end of the text included.\<close>

fun search_action :: "string \<Rightarrow> (string \<times> string) option" where
  "search_action [] = match_action_here []"
| "search_action (c # cs) =
     (case match_action_here (c # cs) of
        Some g \<Rightarrow> Some g
      | None \<Rightarrow> search_action cs)"

text \<open>\<open>tool_name = group(1)\<close>, \<open>tool_input = group(2).strip()\<close>; None is "no action found".\<close>

definition parse_action :: "string \<Rightarrow> (string \<times> string) option" where
  "parse_action msg = map_option (\<lambda>(name, inp). (name, strip inp)) (search_action msg)"

text \<open>
  The last part of the pattern, \<open>\s*(.+)\<close>, with the greedy dot-plus resolved: for each
  amount of whitespace given to \<open>\s*\<close>, longest first, group 2 is the rest of the line
  from there, if it is not empty.
\<close>

definition tail_match :: "string \<Rightarrow> string \<Rightarrow> (string \<times> string) option" where
  "tail_match name r3 =
     first_some (\<lambda>k. if takeWhile not_newline (drop k r3) = [] then None
                     else Some (name, takeWhile not_newline (drop k r3)))
       (star_counts is_space r3)"

text \<open>
  The specification's action line, with whitespace allowed after the two colons only:
  the text \<open>s\<close> reads \<open>Action:\<close>, whitespace, the tool name (word characters, at least
  one), a colon, whitespace, and the raw input, which is not empty, stays on one line and
  ends at the end of that line. Whitespace includes line breaks. The raw input holds a
  character that is not whitespace, unless nothing but whitespace follows the second
  colon. \<open>inp\<close> is the raw input trimmed.
\<close>

definition spec_action_line :: "string \<Rightarrow> string \<Rightarrow> string \<Rightarrow> bool" where
  "spec_action_line s name inp \<longleftrightarrow>
     (\<exists>ws1 ws2 raw rest.
        s = ''Action:'' @ ws1 @ name @ '':'' @ ws2 @ raw @ rest
      \<and> list_all is_space ws1 \<and> list_all is_space ws2
      \<and> name \<noteq> [] \<and> list_all is_word name
      \<and> raw \<noteq> [] \<and> newline \<notin> set raw \<and> (rest = [] \<or> hd rest = newline)
      \<and> (list_ex (\<lambda>c. \<not> is_space c) raw \<or> list_all is_space rest)
      \<and> inp = strip raw)"

section \<open>Agent loop\<close>

datatype role = System | User | Assistant

record turn =
  role :: role
  content :: string

text \<open>
  The loop's state: the transcript \<open>messages\<close>, plus two ghost fields that record the
  external calls the loop makes, the number of completion requests and the tool
  functions called with their inputs.
\<close>

record agent_state =
  messages :: "turn list"
  llm_calls :: nat
  tool_calls :: "(string \<times> string) list"

text \<open>
  The completion provider is a function of the transcript (temperature 0); the registry
  \<open>self.tools\<close> maps a name to its function, whose result is taken as the text that
  \<open>f"Observation: {observation}"\<close> renders.
\<close>

type_synonym llm = "turn list \<Rightarrow> string"
type_synonym tools = "string \<rightharpoonup> (string \<Rightarrow> string)"

definition exhausted_sentinel :: string where
  "exhausted_sentinel = ''Max iterations reached without final answer''"

text \<open>What one pass through the loop body did.\<close>

datatype cycle_outcome =
    FinalAnswer string
  | ToolInvoked string string
  | UnknownTool string
  | NoAction

text \<open>One pass through the body of \<open>for i in range(self.max_iterations)\<close>.\<close>

definition cycle :: "llm \<Rightarrow> tools \<Rightarrow> agent_state \<Rightarrow> cycle_outcome \<times> agent_state" where
  "cycle complete tls st =
     (let assistant_message = complete (messages st);
          st1 = st\<lparr>messages := messages st @ [\<lparr>role = Assistant, content = assistant_message\<rparr>],
                   llm_calls := Suc (llm_calls st)\<rparr>
      in if sub_in final_marker assistant_message
         then (FinalAnswer (final_answer assistant_message), st1)
         else
           (case parse_action assistant_message of
              Some (tool_name, tool_input) \<Rightarrow>
                (case tls tool_name of
                   Some f \<Rightarrow>
                     (ToolInvoked tool_name tool_input,
                      st1\<lparr>messages := messages st1 @
                             [\<lparr>role = User, content = ''Observation: '' @ f tool_input\<rparr>],
                          tool_calls := tool_calls st1 @ [(tool_name, tool_input)]\<rparr>)
                 | None \<Rightarrow>
                     (UnknownTool tool_name,
                      st1\<lparr>messages := messages st1 @
                             [\<lparr>role = User,
                               content = ''Observation: Error - Unknown tool '' @ [CHR 0x27]
                                         @ tool_name @ [CHR 0x27]\<rparr>]\<rparr>))
            | None \<Rightarrow> (NoAction, st1)))"

text \<open>The loop: \<open>n\<close> iterations remain. It returns the text \<open>run\<close> returns.\<close>

fun run_loop :: "llm \<Rightarrow> tools \<Rightarrow> nat \<Rightarrow> agent_state \<Rightarrow> string \<times> agent_state" where
  "run_loop complete tls 0 st = (exhausted_sentinel, st)"
| "run_loop complete tls (Suc n) st =
     (case cycle complete tls st of
        (FinalAnswer a, st') \<Rightarrow> (a, st')
      | (_, st') \<Rightarrow> run_loop complete tls n st')"

definition initial_state :: "string \<Rightarrow> string \<Rightarrow> agent_state" where
  "initial_state system_prompt question =
     \<lparr>messages = [\<lparr>role = System, content = system_prompt\<rparr>,
                  \<lparr>role = User, content = question\<rparr>],
      llm_calls = 0, tool_calls = []\<rparr>"


text \<open>Two small environments for concrete runs: a provider that always gives the same
  text, and an empty registry.\<close>

definition scripted_llm :: "string \<Rightarrow> llm" where
  "scripted_llm msg ms = msg"

definition no_tools :: tools where
  "no_tools name = None"

section \<open>Search fallback chain\<close>

text \<open>\<open>s.replace(old, new)\<close> for a non-empty \<open>old\<close>: every occurrence, found from the left.\<close>

fun replace_str :: "string \<Rightarrow> string \<Rightarrow> string \<Rightarrow> string" where
  "replace_str old new [] = []"
| "replace_str old new (c # cs) =
     (if prefix old (c # cs)
      then new @ replace_str old new (drop (length old - 1) cs)
      else c # replace_str old new cs)"

text \<open>\<open>sep.join(xs)\<close>\<close>

fun join_str :: "string \<Rightarrow> string list \<Rightarrow> string" where
  "join_str sep [] = []"
| "join_str sep [x] = x"
| "join_str sep (x # y # ys) = x @ sep @ join_str sep (y # ys)"

text \<open>\<open>xs[:n]\<close> for a Python integer \<open>n\<close>: a negative \<open>n\<close> counts from the end.\<close>

definition py_take :: "int \<Rightarrow> 'a list \<Rightarrow> 'a list" where
  "py_take n xs = (if n < 0 then take (length xs - nat (- n)) xs else take (nat n) xs)"

text \<open>The list \<open>query_variations\<close> of \<open>_search_with_serpapi\<close>.\<close>

definition query_variations :: "string \<Rightarrow> string list" where
  "query_variations query =
     [query,
      query @ '' definition'',
      ''what is '' @ query,
      query @ '' explained'',
      replace_str ''power'' ''specifications'' (replace_str ''power of'' ''thrust'' query)]"

text \<open>
  The provider's JSON payload, with the keys the code reads; a key that is absent is
  \<open>None\<close>. The values the code formats or measures are taken to be strings.
\<close>

record serp_answer_box =
  ab_answer :: "string option"
  ab_snippet :: "string option"

record serp_knowledge_graph =
  kg_description :: "string option"

record serp_organic =
  or_snippet :: "string option"

record serp_data =
  answer_box :: "serp_answer_box option"
  knowledge_graph :: "serp_knowledge_graph option"
  organic_results :: "serp_organic list option"

text \<open>
  One request either raises (\<open>requests.get\<close> or \<open>response.json()\<close>) or gives a payload.
  The provider is external: a function of the attempt number and the query sent.
\<close>

datatype transport_error = TransportError string

type_synonym provider = "nat \<Rightarrow> string \<Rightarrow> transport_error + serp_data"

text \<open>The bullet U+2022 of the result lines lies outside the modelled range of code
  points; it is written as its three UTF-8 bytes.\<close>

definition bullet :: string where
  "bullet = [CHR 0xE2, CHR 0x80, CHR 0xA2]"

text \<open>The organic-results branch: the first two results, those with a snippet whose
  trimmed length is greater than 20.\<close>

definition snippet_ok :: "serp_organic \<Rightarrow> bool" where
  "snippet_ok r = (case or_snippet r of None \<Rightarrow> False | Some s \<Rightarrow> length (strip s) > 20)"

definition inspect_organic :: "serp_data \<Rightarrow> string option" where
  "inspect_organic d =
     (case organic_results d of
        None \<Rightarrow> None
      | Some rs \<Rightarrow>
          if length rs > 0 then
            (let results = map (\<lambda>r. bullet @ '' '' @ the (or_snippet r))
                               (filter snippet_ok (take 2 rs))
             in if results \<noteq> [] then Some (''Search results:'' @ [newline] @ join_str [newline] results)
                else None)
          else None)"

definition inspect_knowledge_graph :: "serp_data \<Rightarrow> string option" where
  "inspect_knowledge_graph d =
     (case knowledge_graph d of
        None \<Rightarrow> inspect_organic d
      | Some kg \<Rightarrow>
          (case kg_description kg of
             Some x \<Rightarrow> Some (''Info: '' @ x)
           | None \<Rightarrow> inspect_organic d))"

text \<open>What the loop body returns for one payload; \<open>None\<close> when it falls through to
  "No good results".\<close>

definition inspect_response :: "serp_data \<Rightarrow> string option" where
  "inspect_response d =
     (case answer_box d of
        None \<Rightarrow> inspect_knowledge_graph d
      | Some ab \<Rightarrow>
          (case ab_answer ab of
             Some a \<Rightarrow> Some (''Direct answer: '' @ a)
           | None \<Rightarrow>
               (case ab_snippet ab of
                  Some s \<Rightarrow> Some (''Answer: '' @ s)
                | None \<Rightarrow> inspect_knowledge_graph d)))"

text \<open>One pass through the \<open>try\<close> block: an exception is caught and the loop continues,
  just as when the payload yields nothing.\<close>

definition attempt :: "provider \<Rightarrow> nat \<Rightarrow> string \<Rightarrow> string option" where
  "attempt p i q = (case p i q of Inl e \<Rightarrow> None | Inr d \<Rightarrow> inspect_response d)"

text \<open>The \<open>for attempt, search_query in enumerate(...)\<close> loop. The second component is
  the log of the queries sent, in order.\<close>

fun search_attempts ::
  "provider \<Rightarrow> nat \<Rightarrow> string list \<Rightarrow> string list \<Rightarrow> string option \<times> string list" where
  "search_attempts p i [] sent = (None, sent)"
| "search_attempts p i (q # qs) sent =
     (case attempt p i q of
        Some r \<Rightarrow> (Some r, sent @ [q])
      | None \<Rightarrow> search_attempts p (Suc i) qs (sent @ [q]))"

text \<open>\<open>_search_with_serpapi\<close> (tools/search_with_serp_api.py): \<open>return None\<close> when the
  loop ends. The result \<open>None\<close> is Python's \<open>None\<close>.\<close>

definition search_with_serpapi :: "provider \<Rightarrow> string \<Rightarrow> int \<Rightarrow> string option \<times> string list" where
  "search_with_serpapi p query max_retries =
     search_attempts p 0 (py_take max_retries (query_variations query)) []"

text \<open>\<open>_search_with_serpapi_retry\<close> (react_agent.py): the same loop, then the static
  knowledge base \<open>_search_knowledge_base\<close>, taken as a parameter.\<close>

definition search_with_serpapi_retry ::
  "(string \<Rightarrow> string) \<Rightarrow> provider \<Rightarrow> string \<Rightarrow> int \<Rightarrow> string \<times> string list" where
  "search_with_serpapi_retry knowledge_base p query max_retries =
     (case search_attempts p 0 (py_take max_retries (query_variations query)) [] of
        (Some r, sent) \<Rightarrow> (r, sent)
      | (None, sent) \<Rightarrow> (knowledge_base query, sent))"

text \<open>\<open>web_search\<close> (tools/web_search.py). \<open>serpapi_key\<close> is \<open>os.getenv('SERPAPI_KEY')\<close>:
  unset, or a string that is falsy when empty. The defaulted \<open>max_retries\<close> is 3.\<close>

definition no_key_message :: string where
  "no_key_message = ''No SerpAPI key found''"

definition web_search :: "string option \<Rightarrow> provider \<Rightarrow> string \<Rightarrow> string option \<times> string list" where
  "web_search serpapi_key p query =
     (case serpapi_key of
        None \<Rightarrow> (Some no_key_message, [])
      | Some k \<Rightarrow>
          if k \<noteq> [] then search_with_serpapi p query 3
          else (Some no_key_message, []))"

text \<open>The specification's wording of the per-variant rule, for comparison with
  \<open>inspect_response\<close>: the first of (1) the direct answer, (2) the knowledge-panel
  description, (3) the snippets of the first two organic results that are at least
  \<open>min_len\<close> characters long after trimming.\<close>

definition spec_direct_answer :: "serp_data \<Rightarrow> string option" where
  "spec_direct_answer d =
     (case answer_box d of
        None \<Rightarrow> None
      | Some ab \<Rightarrow>
          (case ab_answer ab of
             Some a \<Rightarrow> Some (''Direct answer: '' @ a)
           | None \<Rightarrow> map_option (\<lambda>s. ''Answer: '' @ s) (ab_snippet ab)))"

definition spec_knowledge_panel :: "serp_data \<Rightarrow> string option" where
  "spec_knowledge_panel d =
     (case knowledge_graph d of
        None \<Rightarrow> None
      | Some kg \<Rightarrow> map_option (\<lambda>x. ''Info: '' @ x) (kg_description kg))"

definition spec_snippets :: "nat \<Rightarrow> serp_data \<Rightarrow> string option" where
  "spec_snippets min_len d =
     (let good = filter (\<lambda>s. min_len \<le> length (strip s))
                   (concat (map (\<lambda>r. case or_snippet r of None \<Rightarrow> [] | Some s \<Rightarrow> [s])
                      (take 2 (case organic_results d of None \<Rightarrow> [] | Some rs \<Rightarrow> rs))))
      in if good = [] then None
         else Some (''Search results:'' @ [newline]
                    @ join_str [newline] (map (\<lambda>s. bullet @ '' '' @ s) good)))"

definition spec_inspect :: "nat \<Rightarrow> serp_data \<Rightarrow> string option" where
  "spec_inspect min_len d =
     first_some (\<lambda>f. f d) [spec_direct_answer, spec_knowledge_panel, spec_snippets min_len]"

text \<open>The specification's list of query variants, in its order: the original query,
  "<query> definition", "what is <query>", "<query> explained", and the variant with
  "power of" replaced by "thrust" and then "power" by "specifications".\<close>

definition spec_variants :: "string \<Rightarrow> string list" where
  "spec_variants q =
     [q, q @ '' definition'', ''what is '' @ q, q @ '' explained'',
      replace_str ''power'' ''specifications'' (replace_str ''power of'' ''thrust'' q)]"

text \<open>Example providers: one whose payloads are always empty, one that always raises,
  and one that answers only the query given.\<close>

definition empty_data :: serp_data where
  "empty_data = \<lparr>answer_box = None, knowledge_graph = None, organic_results = None\<rparr>"

definition silent_provider :: provider where
  "silent_provider i q = Inr empty_data"

definition failing_provider :: provider where
  "failing_provider i q = Inl (TransportError ''timeout'')"

definition answering_provider :: "string \<Rightarrow> string \<Rightarrow> provider" where
  "answering_provider good ans i q =
     (if q = good
      then Inr (empty_data\<lparr>answer_box := Some \<lparr>ab_answer = Some ans, ab_snippet = None\<rparr>\<rparr>)
      else Inl (TransportError ''timeout''))"

definition snippet_data :: "string \<Rightarrow> serp_data" where
  "snippet_data s = empty_data\<lparr>organic_results := Some [\<lparr>or_snippet = Some s\<rparr>]\<rparr>"

section \<open>Verification tool\<close>

text \<open>\<open>s.lower()\<close> on the modelled range: the ASCII capitals and the capitals
  U+00C0..U+00DE (U+00D7 is the multiplication sign) move up by 32.\<close>

definition lower_char :: "char \<Rightarrow> char" where
  "lower_char c =
     (let n = (of_char c :: nat)
      in if (65 \<le> n \<and> n \<le> 90) \<or> (192 \<le> n \<and> n \<le> 222 \<and> n \<noteq> 215)
         then char_of (n + 32) else c)"

definition lower :: "string \<Rightarrow> string" where
  "lower s = map lower_char s"

text \<open>\<open>s.split()\<close>: the maximal runs of non-whitespace. \<open>acc\<close> is the current word,
  reversed.\<close>

fun split_ws_acc :: "string \<Rightarrow> string \<Rightarrow> string list" where
  "split_ws_acc acc [] = (if acc = [] then [] else [rev acc])"
| "split_ws_acc acc (c # cs) =
     (if is_space c
      then (if acc = [] then split_ws_acc [] cs else rev acc # split_ws_acc [] cs)
      else split_ws_acc (c # acc) cs)"

definition split_ws :: "string \<Rightarrow> string list" where
  "split_ws s = split_ws_acc [] s"

text \<open>\<open>s.strip(chars)\<close>\<close>

definition strip_chars :: "string \<Rightarrow> string \<Rightarrow> string" where
  "strip_chars chars s =
     rev (dropWhile (\<lambda>c. c \<in> set chars) (rev (dropWhile (\<lambda>c. c \<in> set chars) s)))"

text \<open>\<open>str(n)\<close> for a non-negative integer.\<close>

definition digit_char :: "nat \<Rightarrow> char" where
  "digit_char d = char_of (48 + d)"

function str_nat :: "nat \<Rightarrow> string" where
  "str_nat n = (if n < 10 then [digit_char n] else str_nat (n div 10) @ [digit_char (n mod 10)])"
  by pat_completeness auto
termination
  by (relation "measure id") auto

declare str_nat.simps [simp del]

text \<open>
  \<open>re.sub(r'\b(verify|check|...|output)\b', '', s)\<close>. Every alternative is made of word
  characters and stands between two word boundaries, so a match is exactly a maximal run
  of word characters that equals one of the alternatives. The function walks the text
  run by run and drops those runs.
\<close>

definition stop_words :: "string list" where
  "stop_words = [''verify'', ''check'', ''validate'', ''result'', ''seems'', ''appears'',
                 ''power'', ''of'', ''the'', ''in'', ''terms'', ''based'', ''on'', ''its'',
                 ''output'']"

function remove_stop_words :: "string \<Rightarrow> string" where
  "remove_stop_words [] = []"
| "remove_stop_words (c # cs) =
     (if is_word c
      then (let w = takeWhile is_word (c # cs)
            in (if w \<in> set stop_words then [] else w)
               @ remove_stop_words (dropWhile is_word (c # cs)))
      else c # remove_stop_words cs)"
  by pat_completeness auto
termination
  by (relation "measure length") (auto simp: length_dropWhile_le less_Suc_eq_le)

text \<open>\<open>_extract_key_terms\<close>\<close>

definition extract_key_terms :: "string \<Rightarrow> string" where
  "extract_key_terms description =
     (let cleaned = remove_stop_words (lower description);
          words = split_ws cleaned;
          key_words = map (strip_chars ''.,()[]'')
                        (filter (\<lambda>word. length (strip_chars ''.,()[]'' word) > 2) words)
      in join_str '' '' (take 5 key_words))"

text \<open>\<open>any(term in description.lower() for term in terms)\<close>\<close>

definition any_term_in :: "string list \<Rightarrow> string \<Rightarrow> bool" where
  "any_term_in terms description = list_ex (\<lambda>term. sub_in term (lower description)) terms"

text \<open>\<open>_generate_verification_queries\<close>\<close>

definition generate_verification_queries :: "string \<Rightarrow> string list" where
  "generate_verification_queries description =
     (let key_terms = extract_key_terms description;
          q1 = ''verify check validate '' @ description;
          q2 = (if any_term_in [''engine'', ''power'', ''horsepower'', ''thrust'', ''conversion'']
                     description
                then key_terms @ '' technical specifications datasheet''
                else key_terms @ '' technical specifications'');
          q3 = key_terms @ '' multiple sources comparison'';
          q4 = (if any_term_in [''ge90'', ''boeing'', ''aircraft'', ''engine''] description
                then key_terms @ '' official manufacturer specifications''
                else if any_term_in [''calculation'', ''formula'', ''conversion''] description
                then key_terms @ '' standard formula method''
                else key_terms @ '' authoritative source'')
      in take 4 [q1, q2, q3, q4])"

text \<open>
  \<open>re.findall(r'[\d,]+\.?\d*', s)\<close>: at a digit or comma the match takes the longest run
  of digits and commas, then a dot if one follows, then the longest run of digits; the
  scan resumes after the match. Nothing after the first run can fail, so the matcher
  never backtracks.
\<close>

definition is_digit_or_comma :: "char \<Rightarrow> bool" where
  "is_digit_or_comma c = (is_digit c \<or> c = CHR '','')"

function find_numbers :: "string \<Rightarrow> string list" where
  "find_numbers [] = []"
| "find_numbers (c # cs) =
     (if is_digit_or_comma c
      then (let a = takeWhile is_digit_or_comma (c # cs);
                r1 = dropWhile is_digit_or_comma (c # cs);
                dot = (if r1 \<noteq> [] \<and> hd r1 = CHR ''.'' then ''.'' else []);
                r2 = drop (length dot) r1;
                b = takeWhile is_digit r2
            in (a @ dot @ b) # find_numbers (dropWhile is_digit r2))
      else find_numbers cs)"
  by pat_completeness auto
termination
proof (relation "measure length")
  show "wf (measure length)" by simp
next
  fix c :: char and cs a r1 dot r2 b
  assume "is_digit_or_comma c"
    and "r1 = dropWhile is_digit_or_comma (c # cs)"
    and "r2 = drop (length dot) r1"
  then have "length (dropWhile is_digit r2) \<le> length cs"
    using length_dropWhile_le[of is_digit r2] length_dropWhile_le[of is_digit_or_comma cs]
    by simp
  then show "(dropWhile is_digit r2, c # cs) \<in> measure length" by simp
next
  fix c :: char and cs
  show "(cs, c # cs) \<in> measure length" by simp
qed

text \<open>An entry of \<open>search_results\<close>. The result of \<open>web_search\<close> may be Python's \<open>None\<close>.\<close>

record search_result =
  sr_query :: string
  sr_result :: "string option"
  sr_source_num :: nat

datatype py_error = TypeError string

text \<open>The glyphs of the report lie outside the modelled range of code points; each is
  written as the bytes of its UTF-8 form.\<close>

definition glyph_magnifier :: string where
  "glyph_magnifier = [CHR 0xF0, CHR 0x9F, CHR 0x94, CHR 0x8D]"

definition glyph_chart :: string where
  "glyph_chart = [CHR 0xF0, CHR 0x9F, CHR 0x93, CHR 0x8A]"

definition glyph_cross :: string where
  "glyph_cross = [CHR 0xE2, CHR 0x9D, CHR 0x8C]"

definition glyph_target :: string where
  "glyph_target = [CHR 0xF0, CHR 0x9F, CHR 0x8E, CHR 0xAF]"

definition glyph_check :: string where
  "glyph_check = [CHR 0xE2, CHR 0x9C, CHR 0x85]"

definition glyph_warning :: string where
  "glyph_warning = [CHR 0xE2, CHR 0x9A, CHR 0xA0, CHR 0xEF, CHR 0xB8, CHR 0x8F]"

definition glyph_bulb :: string where
  "glyph_bulb = [CHR 0xF0, CHR 0x9F, CHR 0x92, CHR 0xA1]"

text \<open>
  The first loop of \<open>_analyze_verification_results\<close>: the report lines of the sources and
  the list \<open>valid_results\<close>. The test \<open>"Search failed" not in result['result']\<close> raises
  TypeError when the result is \<open>None\<close>.
\<close>

fun source_lines :: "search_result list \<Rightarrow> py_error + (string list \<times> string list)" where
  "source_lines [] = Inr ([], [])"
| "source_lines (r # rs) =
     (case sr_result r of
        None \<Rightarrow> Inl (TypeError ''argument of type 'NoneType' is not iterable'')
      | Some res \<Rightarrow>
          (let head = [glyph_chart @ '' Source '' @ str_nat (sr_source_num r) @ '': '' @ sr_query r,
                       replicate 30 CHR ''-''];
               body =
                 (if \<not> sub_in ''Search failed'' res
                  then (let numbers = find_numbers res
                        in (if numbers \<noteq> []
                            then [''Key numbers found: '' @ join_str '', '' (take 3 numbers)]
                            else [])
                           @ [''Excerpt: '' @ (if length res > 200 then take 200 res @ ''...''
                                               else res)])
                  else [glyph_cross @ '' '' @ res]);
               valid = (if \<not> sub_in ''Search failed'' res then [res] else [])
           in (case source_lines rs of
                 Inl e \<Rightarrow> Inl e
               | Inr (lines, valid_results) \<Rightarrow>
                   Inr (head @ body @ [[]] @ lines, valid @ valid_results))))"

text \<open>
  The analysis part. The order in which \<open>', '.join(set(all_numbers))\<close> lists the distinct
  numbers is not fixed by Python; \<open>set_order\<close> stands for it.
\<close>

definition analysis_lines :: "(string list \<Rightarrow> string list) \<Rightarrow> string list \<Rightarrow> string list" where
  "analysis_lines set_order valid_results =
     (if length valid_results \<ge> 2 then
        (let all_numbers = concat (map find_numbers valid_results)
         in (if all_numbers \<noteq> []
             then [''Numbers found across sources: '' @ join_str '', '' (set_order all_numbers),
                   (if length (remdups all_numbers) \<le> 3
                    then glyph_check @ '' Results show some consistency across sources''
                    else glyph_warning
                         @ ''  Results show significant variation - this is normal for complex specifications'')]
             else [])
            @ [glyph_check @ '' Successfully verified with '' @ str_nat (length valid_results)
               @ '' sources''])
      else if length valid_results = 1 then
        [glyph_warning @ ''  Only one source provided results - consider additional verification'']
      else
        [glyph_cross @ '' No sources provided valid results - manual verification strongly recommended''])"

text \<open>The lines of the report, before \<open>"\n".join(report)\<close>.\<close>

definition report_lines ::
  "(string list \<Rightarrow> string list) \<Rightarrow> search_result list \<Rightarrow> string \<Rightarrow> py_error + string list" where
  "report_lines set_order search_results original_description =
     (case source_lines search_results of
        Inl e \<Rightarrow> Inl e
      | Inr (lines, valid_results) \<Rightarrow>
          Inr ([glyph_magnifier @ '' MULTI-SOURCE VERIFICATION REPORT'',
                replicate 50 CHR ''='',
                ''Original Query: '' @ original_description,
                []]
               @ lines
               @ [glyph_target @ '' VERIFICATION ANALYSIS:'', replicate 30 CHR ''-'']
               @ analysis_lines set_order valid_results
               @ [[],
                  glyph_bulb @ '' RECOMMENDATION:'',
                  ''Compare your result with the findings above. If there's significant discrepancy,'',
                  ''note the range of values found rather than seeking additional sources.'',
                  ''For most questions, this level of verification is sufficient to proceed with confidence.'']))"

text \<open>\<open>_analyze_verification_results\<close>\<close>

definition analyze_verification_results ::
  "(string list \<Rightarrow> string list) \<Rightarrow> search_result list \<Rightarrow> string \<Rightarrow> py_error + string" where
  "analyze_verification_results set_order search_results original_description =
     (case report_lines set_order search_results original_description of
        Inl e \<Rightarrow> Inl e
      | Inr report \<Rightarrow> Inr (join_str [newline] report))"

text \<open>The search loop of \<open>verify_result\<close>: \<open>enumerate(queries, 1)\<close>. \<open>web_search\<close> catches
  its own exceptions, so the inner \<open>except\<close> branch is never taken.\<close>

fun run_searches :: "(string \<Rightarrow> string option) \<Rightarrow> nat \<Rightarrow> string list \<Rightarrow> search_result list" where
  "run_searches search i [] = []"
| "run_searches search i (q # qs) =
     \<lparr>sr_query = q, sr_result = search q, sr_source_num = i\<rparr> # run_searches search (Suc i) qs"

text \<open>\<open>verify_result\<close>, with the \<open>web_search\<close> it calls as its first argument.\<close>

definition verify_result ::
  "(string \<Rightarrow> string option) \<Rightarrow> (string list \<Rightarrow> string list) \<Rightarrow> string \<Rightarrow> string" where
  "verify_result search set_order description =
     (let queries = generate_verification_queries description;
          search_results = run_searches search 1 queries
      in case analyze_verification_results set_order search_results description of
           Inr verification_report \<Rightarrow> verification_report
         | Inl (TypeError msg) \<Rightarrow>
             ''Multi-source verification failed: '' @ msg
             @ ''. Consider manually double-checking your result using alternative methods or sources.'')"

text \<open>The \<open>web_search\<close> of a process with the given key and provider, as a tool.\<close>

definition web_search_tool :: "string option \<Rightarrow> provider \<Rightarrow> string \<Rightarrow> string option" where
  "web_search_tool serpapi_key p query = fst (web_search serpapi_key p query)"

section \<open>Chat history export\<close>

text \<open>
  A message dictionary of the chat history, with the keys the formatter reads. \<open>role\<close>
  and \<open>content\<close> may be absent (\<open>message.get\<close> supplies a default); the timestamp is
  absent, a \<open>datetime\<close> object or a string. The type \<open>'dt\<close> stands for \<open>datetime\<close>.
\<close>

datatype 'dt timestamp = TsAbsent | TsDatetime 'dt | TsText string

record 'dt message =
  msg_id :: string
  msg_role :: "string option"
  msg_content :: "string option"
  msg_timestamp :: "'dt timestamp"

text \<open>
  The standard-library functions the formatter calls, taken as parameters:
  \<open>datetime.isoformat\<close>, \<open>datetime.fromisoformat\<close> (\<open>None\<close> when it raises ValueError),
  \<open>strftime("%Y-%m-%d")\<close>, \<open>strftime("%H:%M:%S")\<close> and \<open>str.upper\<close>.
\<close>

record 'dt py_lib =
  isoformat :: "'dt \<Rightarrow> string"
  fromisoformat :: "string \<Rightarrow> 'dt option"
  strftime_date :: "'dt \<Rightarrow> string"
  strftime_time :: "'dt \<Rightarrow> string"
  str_upper :: "string \<Rightarrow> string"

text \<open>The sort key \<open>x.get("timestamp_str", x.get("timestamp", ""))\<close>; \<open>timestamp_str\<close> was
  set by the first loop exactly for the \<open>datetime\<close> timestamps.\<close>

definition timestamp_key :: "'dt py_lib \<Rightarrow> 'dt message \<Rightarrow> string" where
  "timestamp_key lib x =
     (case msg_timestamp x of
        TsDatetime dt \<Rightarrow> isoformat lib dt
      | TsText s \<Rightarrow> s
      | TsAbsent \<Rightarrow> [])"

text \<open>\<open>sorted(chat_history, key=...)\<close>: a stable sort; strings compare by code point,
  lexicographically.\<close>

definition sorted_history :: "'dt py_lib \<Rightarrow> 'dt message list \<Rightarrow> 'dt message list" where
  "sorted_history lib chat_history = sort_key (timestamp_key lib) chat_history"

text \<open>\<open>message_key = (message.get("role", ""), message.get("content", ""))\<close>\<close>

definition message_key :: "'dt message \<Rightarrow> string \<times> string" where
  "message_key m =
     ((case msg_role m of None \<Rightarrow> [] | Some r \<Rightarrow> r),
      (case msg_content m of None \<Rightarrow> [] | Some c \<Rightarrow> c))"

text \<open>The loop that fills \<open>unique_messages\<close>, with the set \<open>seen_messages\<close>.\<close>

fun unique_loop :: "(string \<times> string) set \<Rightarrow> 'dt message list \<Rightarrow> 'dt message list" where
  "unique_loop seen_messages [] = []"
| "unique_loop seen_messages (m # ms) =
     (if message_key m \<notin> seen_messages
      then m # unique_loop (insert (message_key m) seen_messages) ms
      else unique_loop seen_messages ms)"

definition unique_messages :: "'dt py_lib \<Rightarrow> 'dt message list \<Rightarrow> 'dt message list" where
  "unique_messages lib chat_history = unique_loop {} (sorted_history lib chat_history)"

text \<open>
  The formatting loop: the strings appended to \<open>formatted_history\<close> for the messages,
  with \<open>current_date\<close> carried along. A message gives an optional date header and then
  its entry line.
\<close>

fun format_loop :: "'dt py_lib \<Rightarrow> string option \<Rightarrow> 'dt message list \<Rightarrow> string list" where
  "format_loop lib current_date [] = []"
| "format_loop lib current_date (m # ms) =
     (let parsed =
            (case msg_timestamp m of
               TsDatetime dt \<Rightarrow> Some dt
             | TsText s \<Rightarrow> fromisoformat lib (replace_str ''Z'' ''+00:00'' s)
             | TsAbsent \<Rightarrow> None);
          timestamp_str =
            (case parsed of
               Some dt \<Rightarrow> strftime_time lib dt
             | None \<Rightarrow> (case msg_timestamp m of TsText s \<Rightarrow> s | _ \<Rightarrow> ''None''));
          header =
            (case parsed of
               Some dt \<Rightarrow>
                 (if Some (strftime_date lib dt) \<noteq> current_date
                  then [[newline] @ ''[Date: '' @ strftime_date lib dt @ '']'' @ [newline]]
                  else [])
             | None \<Rightarrow> []);
          current_date' =
            (case parsed of Some dt \<Rightarrow> Some (strftime_date lib dt) | None \<Rightarrow> current_date);
          role = str_upper lib (case msg_role m of None \<Rightarrow> ''unknown'' | Some r \<Rightarrow> r);
          content = (case msg_content m of None \<Rightarrow> [] | Some c \<Rightarrow> c)
      in header
         @ [''['' @ timestamp_str @ ''] '' @ role @ '': '' @ content @ [newline]]
         @ format_loop lib current_date' ms)"

text \<open>The list \<open>formatted_history\<close> at the end of the function, and the function's result
  \<open>"".join(formatted_history)\<close>.\<close>

definition formatted_history :: "'dt py_lib \<Rightarrow> 'dt message list \<Rightarrow> string list" where
  "formatted_history lib chat_history =
     (''=== CHAT HISTORY ==='' @ [newline]) # format_loop lib None (unique_messages lib chat_history)"

definition format_chat_history_for_email :: "'dt py_lib \<Rightarrow> 'dt message list \<Rightarrow> string" where
  "format_chat_history_for_email lib chat_history = concat (formatted_history lib chat_history)"

text \<open>An example library over \<open>unit\<close> whose parser rejects every string, so that text
  timestamps are printed as they are.\<close>

definition plain_lib :: "unit py_lib" where
  "plain_lib = \<lparr>isoformat = (\<lambda>dt. ''1970-01-01T00:00:00''), fromisoformat = (\<lambda>s. None),
                strftime_date = (\<lambda>dt. ''1970-01-01''), strftime_time = (\<lambda>dt. ''00:00:00''),
                str_upper = map (\<lambda>c. if CHR ''a'' \<le> c \<and> c \<le> CHR ''z''
                                       then char_of (of_char c - (32 :: nat)) else c)\<rparr>"

definition example_history :: "unit message list" where
  "example_history =
     [\<lparr>msg_id = ''3'', msg_role = Some ''user'', msg_content = Some ''hi'', msg_timestamp = TsText ''t3''\<rparr>,
      \<lparr>msg_id = ''1'', msg_role = Some ''user'', msg_content = Some ''hi'', msg_timestamp = TsText ''t1''\<rparr>,
      \<lparr>msg_id = ''2'', msg_role = Some ''assistant'', msg_content = Some ''hi'', msg_timestamp = TsText ''t2''\<rparr>]"

section \<open>Properties of the text primitives\<close>

lemma sub_in_append_left: "sub_in p ys \<Longrightarrow> sub_in p (xs @ ys)"
  by (induction xs) (auto)

lemma sub_in_iff: "sub_in p s \<longleftrightarrow> (\<exists>a b. s = a @ p @ b)"
proof (induction s)
  case Nil
  then show ?case by auto
next
  case (Cons c cs)
  show ?case
  proof
    assume "sub_in p (c # cs)"
    then consider "prefix p (c # cs)" | "sub_in p cs" by auto
    then show "\<exists>a b. c # cs = a @ p @ b"
    proof cases
      case 1
      then obtain b where "c # cs = p @ b" by (auto simp: prefix_def)
      then have "c # cs = [] @ p @ b" by simp
      then show ?thesis by blast
    next
      case 2
      then obtain a b where "cs = a @ p @ b" using Cons.IH by blast
      then have "c # cs = (c # a) @ p @ b" by simp
      then show ?thesis by blast
    qed
  next
    assume "\<exists>a b. c # cs = a @ p @ b"
    then obtain a b where ab: "c # cs = a @ p @ b" by blast
    show "sub_in p (c # cs)"
    proof (cases a)
      case Nil
      then have "prefix p (c # cs)" using ab by (simp add: prefix_def)
      then show ?thesis by simp
    next
      case (Cons x a')
      then have "cs = a' @ p @ b" using ab by simp
      then have "sub_in p cs" using Cons.IH by blast
      then show ?thesis by simp
    qed
  qed
qed

lemma split_acc_no_sep:
  "\<not> sub_in sep s \<Longrightarrow> split_acc sep acc s = [rev acc @ s]"
  by (induction s arbitrary: acc) auto

lemma split_acc_not_Nil: "split_acc sep acc s \<noteq> []"
  by (induction sep acc s rule: split_acc.induct) auto

lemma final_marker_nth:
  "d < 13 \<Longrightarrow> d \<noteq> 0 \<Longrightarrow> final_marker ! d \<noteq> CHR ''F''"
  by (auto simp: final_marker_def numeral_eq_Suc less_Suc_eq)

lemma final_marker_no_overlap:
  assumes "p \<noteq> []" "length p < 13"
  shows "\<not> prefix final_marker (p @ final_marker @ t)"
proof
  assume "prefix final_marker (p @ final_marker @ t)"
  then obtain z where z: "p @ final_marker @ t = final_marker @ z"
    by (auto simp: prefix_def)
  have len: "length final_marker = 13" by (simp add: final_marker_def)
  have f0: "final_marker ! 0 = CHR ''F''" by (simp add: final_marker_def)
  have "(p @ final_marker @ t) ! length p = final_marker ! 0"
    using len by (simp add: nth_append)
  moreover have "(final_marker @ z) ! length p = final_marker ! length p"
    using assms len by (simp add: nth_append)
  moreover have "(p @ final_marker @ t) ! length p = (final_marker @ z) ! length p"
    using z by (rule arg_cong)
  ultimately have "final_marker ! length p = CHR ''F''"
    using f0 by simp
  moreover have "length p \<noteq> 0" using assms by simp
  ultimately show False using final_marker_nth assms by blast
qed

lemma last_split_acc_final:
  assumes "\<not> sub_in final_marker post"
  shows "last (split_acc final_marker acc (pre @ final_marker @ post)) = post"
proof (induction "length pre" arbitrary: pre acc rule: less_induct)
  case less
  show ?case
  proof (cases pre)
    case Nil
    have "split_acc final_marker [] post = [post]"
      using assms split_acc_no_sep[of final_marker post "[]"] by simp
    then show ?thesis using Nil by (simp add: final_marker_def)
  next
    case (Cons c pre')
    show ?thesis
    proof (cases "prefix final_marker (pre @ final_marker @ post)")
      case True
      then have ge: "13 \<le> length pre"
        using final_marker_no_overlap[of pre post] Cons by force
      then have l12: "12 \<le> length pre'" using Cons by simp
      have "length final_marker - 1 = 12" by (simp add: final_marker_def)
      then have eq: "drop (length final_marker - 1) (pre' @ final_marker @ post)
              = drop 12 pre' @ final_marker @ post"
        using l12 by simp
      have "length (drop 12 pre') < length pre" using Cons by simp
      then have ih: "last (split_acc final_marker [] (drop 12 pre' @ final_marker @ post)) = post"
        by (rule less)
      have "last (split_acc final_marker [] (drop (length final_marker - 1) (pre' @ final_marker @ post))) = post"
        unfolding eq by (rule ih)
      then show ?thesis using True Cons split_acc_not_Nil by simp
    next
      case False
      have "length pre' < length pre" using Cons by simp
      then have "last (split_acc final_marker (c # acc) (pre' @ final_marker @ post)) = post"
        using less[of pre' "c # acc"] by simp
      then show ?thesis using False Cons by simp
    qed
  qed
qed

lemma final_answer_last_occurrence:
  "\<not> sub_in final_marker post \<Longrightarrow> final_answer (pre @ final_marker @ post) = strip post"
  by (simp add: final_answer_def split_str_def last_split_acc_final)

lemma last_occurrence_exists:
  "sub_in final_marker msg \<Longrightarrow> \<exists>pre post. msg = pre @ final_marker @ post \<and> \<not> sub_in final_marker post"
proof (induction msg)
  case Nil
  then show ?case by (simp add: final_marker_def)
next
  case (Cons c cs)
  show ?case
  proof (cases "sub_in final_marker cs")
    case True
    then obtain pre post where "cs = pre @ final_marker @ post" "\<not> sub_in final_marker post"
      using Cons.IH by blast
    then have "c # cs = (c # pre) @ final_marker @ post \<and> \<not> sub_in final_marker post" by simp
    then show ?thesis by blast
  next
    case False
    then have "prefix final_marker (c # cs)" using Cons.prems by simp
    then obtain post where p: "c # cs = final_marker @ post" by (auto simp: prefix_def)
    then have "cs = tl final_marker @ post" by (simp add: final_marker_def)
    then have "\<not> sub_in final_marker post" using False sub_in_append_left by blast
    then have "c # cs = [] @ final_marker @ post \<and> \<not> sub_in final_marker post" using p by simp
    then show ?thesis by blast
  qed
qed

section \<open>Final-answer detection\<close>

text \<open>
  Claim C2, as the code has it. An assistant text that contains the marker is always
  classified as a final answer, whatever action line it also holds, and the answer is the
  trimmed text after the LAST occurrence of the marker: for every way of writing the text
  as \<open>pre @ marker @ post\<close> with no marker in \<open>post\<close>, the answer is \<open>strip post\<close>, and
  such a decomposition exists.
\<close>

theorem final_answer_priority_last_occurrence:
  assumes "sub_in final_marker msg" and "complete (messages st) = msg"
  shows "(\<exists>a. fst (cycle complete tls st) = FinalAnswer a)
       \<and> (\<forall>pre post. msg = pre @ final_marker @ post \<and> \<not> sub_in final_marker post
            \<longrightarrow> fst (cycle complete tls st) = FinalAnswer (strip post))
       \<and> (\<exists>pre post. msg = pre @ final_marker @ post \<and> \<not> sub_in final_marker post)"
proof -
  have c: "fst (cycle complete tls st) = FinalAnswer (final_answer msg)"
    using assms by (simp add: cycle_def Let_def)
  show ?thesis
    using c final_answer_last_occurrence last_occurrence_exists[OF assms(1)] by auto
qed

theorem final_answer_priority_last_occurrence_witness:
  "sub_in final_marker ''Action: calculator: 1 Final Answer: a Final Answer: b ''
   \<and> fst (cycle (\<lambda>ms. ''Action: calculator: 1 Final Answer: a Final Answer: b'' @ '' '')
             Map.empty (initial_state ''sys'' ''q'')) = FinalAnswer ''b''"
proof -
  let ?msg = "''Action: calculator: 1 Final Answer: a Final Answer: b ''"
  let ?c = "\<lambda>ms::turn list. ''Action: calculator: 1 Final Answer: a Final Answer: b'' @ '' ''"
  have h1: "sub_in final_marker ?msg"
    by (simp add: final_marker_def)
  have h2: "?c (messages (initial_state ''sys'' ''q'')) = ?msg"
    by simp
  have d: "?msg = ''Action: calculator: 1 Final Answer: a '' @ final_marker @ '' b ''"
    by (simp add: final_marker_def)
  have n: "\<not> sub_in final_marker '' b ''"
    by (simp add: final_marker_def)
  have s: "strip '' b '' = ''b''"
    by (simp add: strip_def is_space_def)
  from final_answer_priority_last_occurrence[OF h1 h2, of Map.empty]
  have "fst (cycle ?c Map.empty (initial_state ''sys'' ''q'')) = FinalAnswer (strip '' b '')"
    using d n by blast
  then show ?thesis using h1 s by simp
qed

text \<open>
  The claim as written takes the text after the FIRST occurrence; with two markers the
  code returns what follows the second.
\<close>

theorem final_answer_first_occurrence_counterexample:
  "final_answer ''Final Answer: a Final Answer: b''
     \<noteq> strip (spec_after_first final_marker ''Final Answer: a Final Answer: b'')"
  by (simp add: final_answer_def split_str_def final_marker_def strip_def is_space_def)

section \<open>Action detection\<close>

lemma first_some_None_iff: "first_some f xs = None \<longleftrightarrow> (\<forall>x\<in>set xs. f x = None)"
  by (induction xs) (auto split: option.splits)

lemma first_some_SomeD: "first_some f xs = Some y \<Longrightarrow> \<exists>x\<in>set xs. f x = Some y"
  by (induction xs) (auto split: option.splits)

lemma first_some_head: "\<forall>x\<in>set xs. f x = None \<Longrightarrow> first_some f (x # xs) = f x"
  using first_some_None_iff[of f xs] by (simp split: option.splits)

lemma star_counts_Cons:
  "star_counts P s = length (takeWhile P s) # rev [0 ..< length (takeWhile P s)]"
  by (simp add: star_counts_def)

lemma plus_counts_Nil: "takeWhile P s = [] \<Longrightarrow> plus_counts P s = []"
  by (simp add: plus_counts_def)

lemma plus_counts_Cons:
  "takeWhile P s \<noteq> [] \<Longrightarrow>
     plus_counts P s = length (takeWhile P s) # rev [1 ..< length (takeWhile P s)]"
  by (cases "takeWhile P s") (simp_all add: plus_counts_def)

lemma take_length_takeWhile: "take (length (takeWhile P s)) s = takeWhile P s"
  by (induction s) auto

lemma drop_length_takeWhile: "drop (length (takeWhile P s)) s = dropWhile P s"
  by (induction s) auto

lemma drop_in_run:
  assumes "i < length (takeWhile P s)"
  shows "\<exists>t. drop i s = (s ! i) # t \<and> P (s ! i)"
proof -
  have l: "i < length s" using assms length_takeWhile_le[of P s] by simp
  have "takeWhile P s ! i = s ! i" using assms by (rule takeWhile_nth)
  moreover have "takeWhile P s ! i \<in> set (takeWhile P s)" using assms by simp
  ultimately have "P (s ! i)" using set_takeWhileD by metis
  then show ?thesis using Cons_nth_drop_Suc[OF l] by metis
qed

lemma word_not_space: "is_word c \<Longrightarrow> \<not> is_space c"
  by (auto simp: is_word_def is_space_def Let_def)

lemma colon_not_word: "\<not> is_word CHR '':''"
  by (simp add: is_word_def)

lemma newline_is_space: "is_space newline"
  by (simp add: is_space_def newline_def)

text \<open>The innermost alternative: the greedy dot-plus.\<close>

lemma dot_plus_greedy:
  "first_some (\<lambda>l. Some (name, take l r4)) (plus_counts not_newline r4)
     = (if takeWhile not_newline r4 = [] then None else Some (name, takeWhile not_newline r4))"
  by (simp add: plus_counts_Nil plus_counts_Cons take_length_takeWhile)

text \<open>Giving back whitespace before the name never helps.\<close>

lemma name_after_less_space:
  assumes "i < length (takeWhile is_space r)"
  shows "plus_counts is_word (drop i r) = []"
proof -
  obtain t where "drop i r = (r ! i) # t" "is_space (r ! i)"
    using drop_in_run[OF assms] by blast
  then have "takeWhile is_word (drop i r) = []" using word_not_space by auto
  then show ?thesis by (rule plus_counts_Nil)
qed

text \<open>Giving back characters of the name never helps.\<close>

lemma colon_after_shorter_name:
  assumes "j < length (takeWhile is_word r1)"
  shows "\<not> prefix '':'' (drop j r1)"
proof -
  obtain t where "drop j r1 = (r1 ! j) # t" "is_word (r1 ! j)"
    using drop_in_run[OF assms] by blast
  then show ?thesis using colon_not_word by auto
qed

lemma match_action_here_det:
  "match_action_here s =
     (if prefix ''Action:'' s
      then (let r1 = dropWhile is_space (drop 7 s);
                name = takeWhile is_word r1;
                r2 = dropWhile is_word r1
            in if name \<noteq> [] \<and> prefix '':'' r2 then tail_match name (drop 1 r2) else None)
      else None)"
proof (cases "prefix ''Action:'' s")
  case False
  then show ?thesis by (simp add: match_action_here_def)
next
  case True
  let ?r = "drop 7 s"
  let ?r1 = "dropWhile is_space ?r"
  let ?name = "takeWhile is_word ?r1"
  let ?r2 = "dropWhile is_word ?r1"
  let ?G = "\<lambda>r1 j. if prefix '':'' (drop j r1)
              then first_some (\<lambda>k. first_some (\<lambda>l. Some (take j r1, take l (drop k (drop 1 (drop j r1)))))
                        (plus_counts not_newline (drop k (drop 1 (drop j r1)))))
                     (star_counts is_space (drop 1 (drop j r1)))
              else None"
  let ?F = "\<lambda>i. first_some (?G (drop i ?r)) (plus_counts is_word (drop i ?r))"
  have m: "match_action_here s = first_some ?F (star_counts is_space ?r)"
    unfolding match_action_here_def Let_def using True
    by (simp only: not_True_eq_False if_False)
  have "\<forall>i\<in>set (rev [0 ..< length (takeWhile is_space ?r)]). ?F i = None"
    using name_after_less_space[of _ ?r] by simp
  then have f: "first_some ?F (star_counts is_space ?r) = ?F (length (takeWhile is_space ?r))"
    unfolding star_counts_Cons by (rule first_some_head)
  have f1: "?F (length (takeWhile is_space ?r)) = first_some (?G ?r1) (plus_counts is_word ?r1)"
    by (simp only: drop_length_takeWhile)
  have g: "first_some (?G ?r1) (plus_counts is_word ?r1)
             = (if ?name \<noteq> [] \<and> prefix '':'' ?r2 then tail_match ?name (drop 1 ?r2) else None)"
  proof (cases "?name = []")
    case True
    then show ?thesis by (simp add: plus_counts_Nil)
  next
    case False
    have "\<forall>j\<in>set (rev [1 ..< length ?name]). ?G ?r1 j = None"
      using colon_after_shorter_name[of _ ?r1] by simp
    then have e: "first_some (?G ?r1) (length ?name # rev [1 ..< length ?name]) = ?G ?r1 (length ?name)"
      by (rule first_some_head)
    have pc: "plus_counts is_word ?r1 = length ?name # rev [1 ..< length ?name]"
      using False by (rule plus_counts_Cons)
    have "first_some (?G ?r1) (plus_counts is_word ?r1) = ?G ?r1 (length ?name)"
      unfolding pc by (rule e)
    also have "\<dots> = (if prefix '':'' ?r2 then tail_match ?name (drop 1 ?r2) else None)"
      by (simp only: drop_length_takeWhile take_length_takeWhile dot_plus_greedy tail_match_def)
    finally show ?thesis using False by simp
  qed
  show ?thesis
    using True m f f1 g by (simp add: Let_def)
qed


lemma run_split:
  "list_all P ws \<Longrightarrow> t = [] \<or> \<not> P (hd t) \<Longrightarrow>
     takeWhile P (ws @ t) = ws \<and> dropWhile P (ws @ t) = t"
proof (induction ws)
  case Nil
  then show ?case by (cases t) auto
next
  case (Cons a ws)
  then show ?case by simp
qed

lemma all_space_strip: "list_all is_space g \<Longrightarrow> strip g = []"
proof -
  assume "list_all is_space g"
  then have "dropWhile is_space g = []"
    by (induction g) auto
  then show ?thesis by (auto simp: strip_def dest: set_dropWhileD)
qed

lemma strip_dropWhile: "strip (dropWhile is_space raw) = strip raw"
  by (simp add: strip_def)

lemma prefix_drop: "prefix p s \<Longrightarrow> s = p @ drop (length p) s"
  by (auto simp: prefix_def)

lemma tail_match_nonspace:
  assumes "dropWhile is_space r3 \<noteq> []"
  shows "tail_match name r3 = Some (name, takeWhile not_newline (dropWhile is_space r3))"
proof -
  let ?r4 = "dropWhile is_space r3"
  have "\<not> is_space (hd ?r4)" using assms by (rule hd_dropWhile)
  then have "hd ?r4 \<noteq> newline" using newline_is_space by auto
  then have "takeWhile not_newline ?r4 \<noteq> []"
    using assms by (cases ?r4) (auto simp: not_newline_def)
  then show ?thesis
    by (simp add: tail_match_def star_counts_Cons drop_length_takeWhile)
qed

lemma tail_match_SomeD:
  assumes "tail_match name r3 = Some (nm, g)"
  shows "nm = name \<and> g \<noteq> [] \<and> (\<exists>k. g = takeWhile not_newline (drop k r3))"
proof -
  obtain k where "(if takeWhile not_newline (drop k r3) = [] then None
                   else Some (name, takeWhile not_newline (drop k r3))) = Some (nm, g)"
    using assms first_some_SomeD unfolding tail_match_def by fast
  then show ?thesis by (auto split: if_splits)
qed

lemma tail_match_all_space:
  assumes "dropWhile is_space r3 = []" and "c \<in> set r3" and "c \<noteq> newline"
  shows "tail_match name r3 \<noteq> None"
proof
  assume n: "tail_match name r3 = None"
  have tw: "takeWhile is_space r3 = r3"
    using assms(1) by (simp add: dropWhile_eq_Nil_conv takeWhile_eq_all_conv)
  obtain k where k: "k < length r3" "r3 ! k = c"
    using assms(2) by (auto simp: in_set_conv_nth)
  have "k \<in> set (rev [0 ..< Suc (length r3)])"
    using k(1) by simp
  then have "k \<in> set (star_counts is_space r3)"
    unfolding star_counts_def tw .
  then have "takeWhile not_newline (drop k r3) = []"
    using n unfolding tail_match_def first_some_None_iff by (auto split: if_splits)
  moreover have "drop k r3 = c # drop (Suc k) r3"
    using k Cons_nth_drop_Suc[of k r3] by simp
  ultimately show False using assms(3) by (simp add: not_newline_def)
qed

lemma input_after_space:
  assumes "r4 = dropWhile is_space r3" "r4 \<noteq> []" "g = takeWhile not_newline r4"
  shows "\<exists>ws2 rest. r3 = ws2 @ g @ rest \<and> list_all is_space ws2 \<and> g \<noteq> []
          \<and> newline \<notin> set g \<and> (rest = [] \<or> hd rest = newline)
          \<and> list_ex (\<lambda>c. \<not> is_space c) g"
proof -
  obtain x xs where x: "r4 = x # xs" using assms(2) by (cases r4) auto
  have dx: "dropWhile is_space r3 = x # xs" using assms(1) x by simp
  have nx: "\<not> is_space x" using hd_dropWhile[of is_space r3] dx by simp
  then have "x \<noteq> newline" using newline_is_space by auto
  then have gx: "g = x # takeWhile not_newline xs"
    using assms(3) x by (simp add: not_newline_def)
  have a: "r3 = takeWhile is_space r3 @ g @ dropWhile not_newline r4"
    using assms(1,3) by simp
  have b: "list_all is_space (takeWhile is_space r3)"
    by (auto simp: list_all_iff dest: set_takeWhileD)
  have c: "newline \<notin> set g"
    using assms(3) by (auto dest: set_takeWhileD simp: not_newline_def)
  have d: "dropWhile not_newline r4 = [] \<or> hd (dropWhile not_newline r4) = newline"
    using hd_dropWhile[of not_newline r4] by (auto simp: not_newline_def)
  have e: "list_ex (\<lambda>c. \<not> is_space c) g"
    using gx nx by simp
  have f: "g \<noteq> []" using gx by simp
  show ?thesis
    apply (rule exI[of _ "takeWhile is_space r3"])
    apply (rule exI[of _ "dropWhile not_newline r4"])
    using a b c d e f by simp
qed

lemma input_all_space:
  assumes "\<forall>c\<in>set r3. is_space c" "g = takeWhile not_newline (drop k r3)"
  shows "\<exists>ws2 rest. r3 = ws2 @ g @ rest \<and> list_all is_space ws2
          \<and> newline \<notin> set g \<and> (rest = [] \<or> hd rest = newline)
          \<and> list_all is_space rest \<and> list_all is_space g"
proof -
  have a: "r3 = take k r3 @ g @ dropWhile not_newline (drop k r3)"
    using assms(2) by simp
  have b: "list_all is_space (take k r3)"
    using assms(1) by (auto simp: list_all_iff dest: in_set_takeD)
  have c: "newline \<notin> set g"
    using assms(2) by (auto dest: set_takeWhileD simp: not_newline_def)
  have d: "dropWhile not_newline (drop k r3) = []
            \<or> hd (dropWhile not_newline (drop k r3)) = newline"
    using hd_dropWhile[of not_newline "drop k r3"] by (auto simp: not_newline_def)
  have e: "list_all is_space (dropWhile not_newline (drop k r3))"
    using assms(1) by (auto simp: list_all_iff dest: set_dropWhileD in_set_dropD)
  have f: "list_all is_space g"
    using assms by (auto simp: list_all_iff dest: set_takeWhileD in_set_dropD)
  show ?thesis
    apply (rule exI[of _ "take k r3"])
    apply (rule exI[of _ "dropWhile not_newline (drop k r3)"])
    using a b c d e f by simp
qed

lemma tail_match_input:
  assumes "tail_match name0 r3 = Some (name, g)"
  shows "name = name0 \<and> g \<noteq> [] \<and>
         (\<exists>ws2 rest. r3 = ws2 @ g @ rest \<and> list_all is_space ws2
          \<and> newline \<notin> set g \<and> (rest = [] \<or> hd rest = newline)
          \<and> (list_ex (\<lambda>c. \<not> is_space c) g \<or> list_all is_space rest))"
proof (cases "dropWhile is_space r3 = []")
  case False
  have "g = takeWhile not_newline (dropWhile is_space r3)"
    using assms tail_match_nonspace[OF False, of name0] by simp
  then show ?thesis
    using input_after_space[OF refl False, of g] tail_match_SomeD[OF assms] by blast
next
  case True
  then have all: "\<forall>c\<in>set r3. is_space c" by (simp add: dropWhile_eq_Nil_conv)
  obtain k where k: "g = takeWhile not_newline (drop k r3)"
    using tail_match_SomeD[OF assms] by blast
  show ?thesis
    using input_all_space[OF all k] tail_match_SomeD[OF assms] by blast
qed

lemma match_imp_spec:
  assumes "match_action_here s = Some (name, g)"
  shows "spec_action_line s name (strip g)"
proof -
  define r where "r = drop 7 s"
  define r1 where "r1 = dropWhile is_space r"
  define r2 where "r2 = dropWhile is_word r1"
  define r3 where "r3 = drop 1 r2"
  define name0 where "name0 = takeWhile is_word r1"
  have p: "prefix ''Action:'' s"
    using assms by (auto simp: match_action_here_det split: if_splits)
  have d: "(if name0 \<noteq> [] \<and> prefix '':'' r2 then tail_match name0 r3 else None) = Some (name, g)"
    using assms p unfolding match_action_here_det Let_def r_def r1_def r2_def r3_def name0_def
    by simp
  have c: "name0 \<noteq> []" "prefix '':'' r2" and tm: "tail_match name0 r3 = Some (name, g)"
    using d by (auto split: if_splits)
  have nm: "name = name0" and g: "g \<noteq> []" using tail_match_input[OF tm] by simp_all
  obtain ws2 rest where i: "r3 = ws2 @ g @ rest" "list_all is_space ws2"
      "newline \<notin> set g" "rest = [] \<or> hd rest = newline"
      "list_ex (\<lambda>c. \<not> is_space c) g \<or> list_all is_space rest"
    using tail_match_input[OF tm] by blast
  have l7: "length ''Action:'' = 7" by simp
  have l1: "length '':'' = 1" by simp
  have s1: "s = ''Action:'' @ r" using prefix_drop[OF p] unfolding l7 r_def .
  have s2: "r = takeWhile is_space r @ r1" unfolding r1_def by simp
  have s3: "r1 = name @ r2" unfolding nm name0_def r2_def by simp
  have s4: "r2 = '':'' @ r3" using prefix_drop[OF c(2)] unfolding l1 r3_def .
  have w1: "list_all is_space (takeWhile is_space r)"
    by (auto simp: list_all_iff dest: set_takeWhileD)
  have wn: "list_all is_word name"
    unfolding nm name0_def by (auto simp: list_all_iff dest: set_takeWhileD)
  have "s = ''Action:'' @ (takeWhile is_space r @ (name @ ('':'' @ (ws2 @ g @ rest))))"
    using s1 s2 s3 s4 i(1) by argo
  then have e: "s = ''Action:'' @ takeWhile is_space r @ name @ '':'' @ ws2 @ g @ rest"
    by simp
  show ?thesis
    unfolding spec_action_line_def
    apply (rule exI[of _ "takeWhile is_space r"])
    apply (rule exI[of _ ws2])
    apply (rule exI[of _ g])
    apply (rule exI[of _ rest])
    using e w1 wn c(1) nm g i(2-5) by simp
qed


lemma spec_imp_match:
  assumes "spec_action_line s name inp"
  shows "\<exists>g. match_action_here s = Some (name, g) \<and> strip g = inp"
proof -
  obtain ws1 ws2 raw rest where
    s: "s = ''Action:'' @ ws1 @ name @ '':'' @ ws2 @ raw @ rest"
    and w1: "list_all is_space ws1" and w2: "list_all is_space ws2"
    and n: "name \<noteq> []" "list_all is_word name"
    and raw: "raw \<noteq> []" "newline \<notin> set raw"
    and rest: "rest = [] \<or> hd rest = newline"
    and alt: "list_ex (\<lambda>c. \<not> is_space c) raw \<or> list_all is_space rest"
    and inp: "inp = strip raw"
    using assms unfolding spec_action_line_def by blast
  define r3 where "r3 = ws2 @ raw @ rest"
  define r2 where "r2 = '':'' @ r3"
  define r1 where "r1 = name @ r2"
  have p: "prefix ''Action:'' s" unfolding s by simp
  have d7: "drop 7 s = ws1 @ r1" unfolding s r1_def r2_def r3_def by simp
  have "\<not> is_space (hd r1)"
    using n word_not_space unfolding r1_def by (cases name) auto
  then have e1: "dropWhile is_space (ws1 @ r1) = r1"
    using run_split[OF w1, of r1] by simp
  have "\<not> is_word (hd r2)" unfolding r2_def using colon_not_word by simp
  then have e2: "takeWhile is_word r1 = name" "dropWhile is_word r1 = r2"
    using run_split[OF n(2), of r2] unfolding r1_def by simp_all
  have e3: "prefix '':'' r2" "drop 1 r2 = r3" unfolding r2_def by simp_all
  have m: "match_action_here s = tail_match name r3"
    unfolding match_action_here_det Let_def d7 e1 e2 e3(2) using p n(1) e3(1) by simp
  show ?thesis
  proof (cases "list_ex (\<lambda>c. \<not> is_space c) raw")
    case True
    then have dr: "dropWhile is_space (raw @ rest) = dropWhile is_space raw @ rest"
      by (auto simp: list_ex_iff dropWhile_append1)
    have ne: "dropWhile is_space raw \<noteq> []"
      using True by (auto simp: list_ex_iff dropWhile_eq_Nil_conv)
    have "\<not> is_space (hd (dropWhile is_space raw))" using ne by (rule hd_dropWhile)
    then have "raw @ rest = [] \<or> \<not> is_space (hd (dropWhile is_space raw @ rest))"
      using ne by simp
    have d3: "dropWhile is_space r3 = dropWhile is_space raw @ rest"
    proof -
      have "dropWhile is_space r3 = dropWhile is_space (dropWhile is_space (ws2 @ (raw @ rest)))"
        unfolding r3_def by simp
      have "dropWhile is_space (ws2 @ (raw @ rest)) = dropWhile is_space (raw @ rest)"
        using w2 by (induction ws2) auto
      then show ?thesis unfolding r3_def using dr by simp
    qed
    have "\<forall>c\<in>set (dropWhile is_space raw). not_newline c"
      using raw(2) by (auto simp: not_newline_def dest: set_dropWhileD)
    then have "list_all not_newline (dropWhile is_space raw)" by (simp add: list_all_iff)
    moreover have "rest = [] \<or> \<not> not_newline (hd rest)"
      using rest by (auto simp: not_newline_def)
    ultimately have tw: "takeWhile not_newline (dropWhile is_space raw @ rest) = dropWhile is_space raw"
      using run_split by blast
    have "dropWhile is_space r3 \<noteq> []" unfolding d3 using ne by simp
    then have "tail_match name r3 = Some (name, dropWhile is_space raw)"
      using tail_match_nonspace[of r3 name] unfolding d3 tw by simp
    then show ?thesis using m inp strip_dropWhile by simp
  next
    case False
    then have rs: "list_all is_space raw" by (auto simp: list_ex_iff list_all_iff)
    have rr: "list_all is_space rest" using alt False by simp
    have all: "\<forall>c\<in>set r3. is_space c"
      unfolding r3_def using w2 rs rr by (auto simp: list_all_iff)
    then have da: "dropWhile is_space r3 = []" by (simp add: dropWhile_eq_Nil_conv)
    obtain c where c: "c \<in> set raw" "c \<noteq> newline"
      using raw by (cases raw) auto
    have "c \<in> set r3" using c(1) unfolding r3_def by simp
    then have "tail_match name r3 \<noteq> None"
      using tail_match_all_space[OF da _ c(2)] by blast
    then obtain nm g where t: "tail_match name r3 = Some (nm, g)" by auto
    obtain k where "nm = name" "g = takeWhile not_newline (drop k r3)"
      using tail_match_SomeD[OF t] by blast
    moreover have "list_all is_space (takeWhile not_newline (drop k r3))"
      using all by (auto simp: list_all_iff dest: set_takeWhileD in_set_dropD)
    ultimately have "strip g = []" "nm = name" using all_space_strip by simp_all
    moreover have "strip raw = []" using rs by (rule all_space_strip)
    ultimately show ?thesis using m t inp by simp
  qed
qed

lemma search_action_Some_iff:
  "search_action msg = Some g \<longleftrightarrow>
     (\<exists>i\<le>length msg. match_action_here (drop i msg) = Some g
                      \<and> (\<forall>j<i. match_action_here (drop j msg) = None))"
proof (induction msg)
  case Nil
  then show ?case by simp
next
  case (Cons c cs)
  show ?case
  proof (cases "match_action_here (c # cs)")
    case (Some g')
    have "(\<exists>i\<le>length (c # cs). match_action_here (drop i (c # cs)) = Some g
            \<and> (\<forall>j<i. match_action_here (drop j (c # cs)) = None)) \<longleftrightarrow> g' = g"
    proof
      assume "\<exists>i\<le>length (c # cs). match_action_here (drop i (c # cs)) = Some g
            \<and> (\<forall>j<i. match_action_here (drop j (c # cs)) = None)"
      then obtain i where i: "match_action_here (drop i (c # cs)) = Some g"
          "\<forall>j<i. match_action_here (drop j (c # cs)) = None" by blast
      have "i = 0"
      proof (rule ccontr)
        assume "i \<noteq> 0"
        then have "match_action_here (drop 0 (c # cs)) = None" using i(2) by blast
        then show False using Some by simp
      qed
      then show "g' = g" using i(1) Some by simp
    next
      assume "g' = g"
      then have "match_action_here (drop 0 (c # cs)) = Some g
                 \<and> (\<forall>j<0. match_action_here (drop j (c # cs)) = None)"
        using Some by simp
      then show "\<exists>i\<le>length (c # cs). match_action_here (drop i (c # cs)) = Some g
            \<and> (\<forall>j<i. match_action_here (drop j (c # cs)) = None)"
        by blast
    qed
    then show ?thesis using Some by simp
  next
    case None
    have "(\<exists>i\<le>length (c # cs). match_action_here (drop i (c # cs)) = Some g
            \<and> (\<forall>j<i. match_action_here (drop j (c # cs)) = None))
          \<longleftrightarrow> (\<exists>i\<le>length cs. match_action_here (drop i cs) = Some g
            \<and> (\<forall>j<i. match_action_here (drop j cs) = None))"
    proof
      assume "\<exists>i\<le>length (c # cs). match_action_here (drop i (c # cs)) = Some g
            \<and> (\<forall>j<i. match_action_here (drop j (c # cs)) = None)"
      then obtain i where i: "i \<le> length (c # cs)" "match_action_here (drop i (c # cs)) = Some g"
          "\<forall>j<i. match_action_here (drop j (c # cs)) = None" by blast
      have "i \<noteq> 0"
      proof
        assume "i = 0"
        then have "match_action_here (c # cs) = Some g" using i(2) by simp
        then show False using None by simp
      qed
      then obtain i' where i': "i = Suc i'" by (cases i) auto
      have "\<forall>j<i'. match_action_here (drop j cs) = None"
      proof (intro allI impI)
        fix j assume "j < i'"
        then have "match_action_here (drop (Suc j) (c # cs)) = None" using i(3) i' by blast
        then show "match_action_here (drop j cs) = None" by simp
      qed
      then have "i' \<le> length cs \<and> match_action_here (drop i' cs) = Some g
                 \<and> (\<forall>j<i'. match_action_here (drop j cs) = None)"
        using i(1,2) i' by simp
      then show "\<exists>i\<le>length cs. match_action_here (drop i cs) = Some g
            \<and> (\<forall>j<i. match_action_here (drop j cs) = None)" by blast
    next
      assume "\<exists>i\<le>length cs. match_action_here (drop i cs) = Some g
            \<and> (\<forall>j<i. match_action_here (drop j cs) = None)"
      then obtain i where i: "i \<le> length cs" "match_action_here (drop i cs) = Some g"
          "\<forall>j<i. match_action_here (drop j cs) = None" by blast
      have "\<forall>j<Suc i. match_action_here (drop j (c # cs)) = None"
      proof (intro allI impI)
        fix j assume j: "j < Suc i"
        show "match_action_here (drop j (c # cs)) = None"
        proof (cases j)
          case 0
          then show ?thesis using None by simp
        next
          case (Suc j')
          then show ?thesis using i(3) j by simp
        qed
      qed
      then have "Suc i \<le> length (c # cs) \<and> match_action_here (drop (Suc i) (c # cs)) = Some g
            \<and> (\<forall>j<Suc i. match_action_here (drop j (c # cs)) = None)"
        using i(1,2) by simp
      then show "\<exists>i\<le>length (c # cs). match_action_here (drop i (c # cs)) = Some g
            \<and> (\<forall>j<i. match_action_here (drop j (c # cs)) = None)" by blast
    qed
    then show ?thesis using None Cons.IH by simp
  qed
qed

lemma search_action_None_iff:
  "search_action msg = None \<longleftrightarrow> (\<forall>i. match_action_here (drop i msg) = None)"
proof (induction msg)
  case Nil
  then show ?case by simp
next
  case (Cons c cs)
  have "(\<forall>i. match_action_here (drop i (c # cs)) = None)
        \<longleftrightarrow> match_action_here (c # cs) = None \<and> (\<forall>i. match_action_here (drop i cs) = None)"
  proof
    assume a: "\<forall>i. match_action_here (drop i (c # cs)) = None"
    have "match_action_here (drop 0 (c # cs)) = None" using a by blast
    moreover have "\<forall>i. match_action_here (drop (Suc i) (c # cs)) = None" using a by blast
    ultimately show "match_action_here (c # cs) = None \<and> (\<forall>i. match_action_here (drop i cs) = None)"
      by simp
  next
    assume a: "match_action_here (c # cs) = None \<and> (\<forall>i. match_action_here (drop i cs) = None)"
    show "\<forall>i. match_action_here (drop i (c # cs)) = None"
    proof
      fix i show "match_action_here (drop i (c # cs)) = None"
        using a by (cases i) simp_all
    qed
  qed
  then show ?case using Cons.IH by (simp split: option.splits)
qed

text \<open>
  Claim C3, as the code has it. A well-formed action line is \<open>spec_action_line\<close>: the
  text \<open>Action:\<close>, any whitespace (none included), a tool name of word characters, a
  colon directly after the name, any whitespace (none included), and the input on one
  line. For every text, the parser returns a tool name and a trimmed input exactly when
  they are those of the leftmost well-formed action line of the text, whatever the two
  runs of whitespace are; and it returns "no action found" exactly when the text holds
  no well-formed action line at any position. The parser is a total function, so no
  text makes it fail.
\<close>

theorem parse_action_wellformed:
  "((parse_action msg = Some (name, inp)) =
      (\<exists>i\<le>length msg. spec_action_line (drop i msg) name inp
         \<and> (\<forall>j<i. \<forall>n v. \<not> spec_action_line (drop j msg) n v)))
   \<and> ((parse_action msg = None) = (\<forall>i n v. \<not> spec_action_line (drop i msg) n v))"
proof (intro conjI iffI)
  assume "parse_action msg = Some (name, inp)"
  then obtain g where g: "search_action msg = Some (name, g)" "strip g = inp"
    by (auto simp: parse_action_def)
  then obtain i where i: "i \<le> length msg" "match_action_here (drop i msg) = Some (name, g)"
      "\<forall>j<i. match_action_here (drop j msg) = None"
    using search_action_Some_iff[of msg "(name, g)"] by blast
  have "spec_action_line (drop i msg) name inp"
    using match_imp_spec[OF i(2)] g(2) by simp
  moreover have "\<forall>j<i. \<forall>n v. \<not> spec_action_line (drop j msg) n v"
    using i(3) spec_imp_match by fastforce
  ultimately show "\<exists>i\<le>length msg. spec_action_line (drop i msg) name inp
         \<and> (\<forall>j<i. \<forall>n v. \<not> spec_action_line (drop j msg) n v)"
    using i(1) by blast
next
  assume "\<exists>i\<le>length msg. spec_action_line (drop i msg) name inp
         \<and> (\<forall>j<i. \<forall>n v. \<not> spec_action_line (drop j msg) n v)"
  then obtain i where i: "i \<le> length msg" "spec_action_line (drop i msg) name inp"
      "\<forall>j<i. \<forall>n v. \<not> spec_action_line (drop j msg) n v"
    by blast
  obtain g where g: "match_action_here (drop i msg) = Some (name, g)" "strip g = inp"
    using spec_imp_match[OF i(2)] by blast
  have "\<forall>j<i. match_action_here (drop j msg) = None"
  proof (intro allI impI)
    fix j assume j: "j < i"
    show "match_action_here (drop j msg) = None"
    proof (cases "match_action_here (drop j msg)")
      case None
      then show ?thesis .
    next
      case (Some a)
      obtain n g' where "a = (n, g')" by (cases a)
      then have "spec_action_line (drop j msg) n (strip g')"
        using Some match_imp_spec by simp
      then show ?thesis using i(3) j by blast
    qed
  qed
  then have "search_action msg = Some (name, g)"
    using search_action_Some_iff[of msg "(name, g)"] i(1) g(1) by blast
  then show "parse_action msg = Some (name, inp)"
    using g(2) by (simp add: parse_action_def)
next
  assume "parse_action msg = None"
  then have "\<forall>i. match_action_here (drop i msg) = None"
    using search_action_None_iff[of msg] by (simp add: parse_action_def)
  then show "\<forall>i n v. \<not> spec_action_line (drop i msg) n v"
    using spec_imp_match by fastforce
next
  assume a: "\<forall>i n v. \<not> spec_action_line (drop i msg) n v"
  have "\<forall>i. match_action_here (drop i msg) = None"
  proof
    fix i show "match_action_here (drop i msg) = None"
    proof (cases "match_action_here (drop i msg)")
      case None
      then show ?thesis .
    next
      case (Some b)
      obtain n g' where "b = (n, g')" by (cases b)
      then have "spec_action_line (drop i msg) n (strip g')"
        using Some match_imp_spec by simp
      then show ?thesis using a by blast
    qed
  qed
  then show "parse_action msg = None"
    using search_action_None_iff[of msg] by (simp add: parse_action_def)
qed

lemma no_match_before_second_line:
  "list_all (\<lambda>j. match_action_here
                    (drop j (''Action: bad'' @ newline # ''Action:calc:  1 + 1 '' @ newline # ''Observation: x'')) = None)
     [0 ..< 12]"
  by code_simp

lemma search_space_before_colon: "search_action ''Action: calculator : 2 + 3'' = None"
  by code_simp

theorem parse_action_wellformed_witness:
  "parse_action (''Action: bad'' @ newline # ''Action:calc:  1 + 1 '' @ newline # ''Observation: x'')
      = Some (''calc'', ''1 + 1'')
   \<and> parse_action ''Action: calculator : 2 + 3'' = None"
proof -
  let ?msg = "''Action: bad'' @ newline # ''Action:calc:  1 + 1 '' @ newline # ''Observation: x''"
  have d: "drop 12 ?msg = ''Action:'' @ [] @ ''calc'' @ '':'' @ ''  '' @ ''1 + 1 '' @ (newline # ''Observation: x'')"
    by simp
  have sp: "spec_action_line (drop 12 ?msg) ''calc'' ''1 + 1''"
    unfolding spec_action_line_def d
    apply (rule exI[of _ "[]"])
    apply (rule exI[of _ "''  ''"])
    apply (rule exI[of _ "''1 + 1 ''"])
    apply (rule exI[of _ "newline # ''Observation: x''"])
    apply (simp add: is_space_def is_word_def newline_def strip_def)
    done
  have "\<forall>j<12. match_action_here (drop j ?msg) = None"
    using no_match_before_second_line by (simp add: list_all_iff)
  then have nb: "\<forall>j<12. \<forall>n v. \<not> spec_action_line (drop j ?msg) n v"
    using spec_imp_match by fastforce
  have l: "(12::nat) \<le> length ?msg" by simp
  have a: "parse_action ?msg = Some (''calc'', ''1 + 1'')"
    using parse_action_wellformed[of ?msg "''calc''" "''1 + 1''"] sp nb l by blast
  have "\<forall>i. match_action_here (drop i ''Action: calculator : 2 + 3'') = None"
    using search_space_before_colon search_action_None_iff by blast
  then have "\<forall>i n v. \<not> spec_action_line (drop i ''Action: calculator : 2 + 3'') n v"
    using spec_imp_match by fastforce
  then have b: "parse_action ''Action: calculator : 2 + 3'' = None"
    using parse_action_wellformed[of "''Action: calculator : 2 + 3''"] by blast
  show ?thesis using a b by simp
qed

text \<open>
  The claim as written also admits extra spaces before a colon; the pattern wants the
  colon directly after the tool name, so such a line is not an action.
\<close>

theorem parse_action_space_before_colon_counterexample:
  "parse_action ''Action: calculator: 2 + 3'' = Some (''calculator'', ''2 + 3'')
   \<and> parse_action ''Action: calculator : 2 + 3'' = None"
  by code_simp

section \<open>The agent loop\<close>


lemma cycle_messages:
  "\<exists>obs. messages (snd (cycle complete tls st))
      = messages st @ \<lparr>role = Assistant, content = complete (messages st)\<rparr> # obs"
  by (auto simp: cycle_def Let_def split: option.splits)





lemma run_loop_messages_prefix:
  "prefix (messages st) (messages (snd (run_loop complete tls n st)))"
proof (induction n arbitrary: st)
  case 0
  then show ?case by simp
next
  case (Suc n)
  obtain out st1 where c: "cycle complete tls st = (out, st1)" by (cases "cycle complete tls st")
  have m: "prefix (messages st) (messages st1)"
    using cycle_messages[of complete tls st] c by (auto simp: prefix_def)
  have "prefix (messages st1) (messages (snd (run_loop complete tls n st1)))"
    by (rule Suc.IH)
  then have "prefix (messages st) (messages (snd (run_loop complete tls n st1)))"
    using m prefix_order.trans by blast
  then show ?case
    using c m by (cases out) auto
qed





text \<open>
  Claim C8, as the code has it. A cycle never removes or rewrites a turn: the old
  transcript is a prefix of the new one, and of the transcript at the end of the loop.
  A cycle appends the assistant turn holding the completion and, exactly when that text
  holds no final-answer marker and an action line is parsed from it, one observation
  turn of role user: "Observation: " and the tool's result when the tool is registered,
  the unknown-tool error naming the tool when it is not. So the transcript grows by two
  turns in these two cases and by one turn otherwise. A tool function is called only
  when the tool is registered.
\<close>

theorem cycle_transcript_growth:
  "messages (snd (cycle complete tls st)) =
     messages st @ \<lparr>role = Assistant, content = complete (messages st)\<rparr> #
       (if sub_in ''Final Answer:'' (complete (messages st)) then []
        else (case parse_action (complete (messages st)) of
                None \<Rightarrow> []
              | Some (tool_name, tool_input) \<Rightarrow>
                  [\<lparr>role = User,
                    content =
                      (case tls tool_name of
                         Some f \<Rightarrow> ''Observation: '' @ f tool_input
                       | None \<Rightarrow> ''Observation: Error - Unknown tool '' @ [CHR 0x27]
                                  @ tool_name @ [CHR 0x27])\<rparr>]))
   \<and> tool_calls (snd (cycle complete tls st)) =
       tool_calls st @
         (if sub_in ''Final Answer:'' (complete (messages st)) then []
          else (case parse_action (complete (messages st)) of
                  None \<Rightarrow> []
                | Some (tool_name, tool_input) \<Rightarrow>
                    (case tls tool_name of Some f \<Rightarrow> [(tool_name, tool_input)] | None \<Rightarrow> [])))
   \<and> length (messages (snd (cycle complete tls st))) =
       length (messages st) +
         (if \<not> sub_in ''Final Answer:'' (complete (messages st))
             \<and> parse_action (complete (messages st)) \<noteq> None
          then 2 else 1)
   \<and> prefix (messages st) (messages (snd (run_loop complete tls n st)))"
  using run_loop_messages_prefix[of st complete tls n]
  by (auto simp: cycle_def Let_def final_marker_def split: option.splits)

lemma parse_action_foo: "parse_action ''Action: foo: bar'' = Some (''foo'', ''bar'')"
  by code_simp

text \<open>
  The claim as written gives one turn to every cycle that invokes no tool; a cycle whose
  action names an unregistered tool calls no tool function and still appends two turns.
\<close>

theorem cycle_unknown_tool_counterexample:
  "tool_calls (snd (cycle (scripted_llm ''Action: foo: bar'') no_tools (initial_state ''s'' ''q''))) = []
   \<and> length (messages (snd (cycle (scripted_llm ''Action: foo: bar'') no_tools (initial_state ''s'' ''q''))))
       = length (messages (initial_state ''s'' ''q'')) + 2"
  by (simp add: cycle_def scripted_llm_def no_tools_def initial_state_def final_marker_def
        parse_action_foo)

section \<open>The search fallback chain\<close>

lemma good_snippets_eq:
  "map (\<lambda>r. b @ the (or_snippet r)) (filter snippet_ok rs)
   = map (\<lambda>s. b @ s) (filter (\<lambda>s. 21 \<le> length (strip s))
       (concat (map (\<lambda>r. case or_snippet r of None \<Rightarrow> [] | Some s \<Rightarrow> [s]) rs)))"
  by (induction rs) (auto simp: snippet_ok_def split: option.splits)

lemma inspect_organic_eq: "inspect_organic d = spec_snippets 21 d"
proof (cases "organic_results d")
  case None
  then show ?thesis by (simp add: inspect_organic_def spec_snippets_def)
next
  case (Some rs)
  have "map (\<lambda>r. bullet @ '' '' @ the (or_snippet r)) (filter snippet_ok (take 2 rs))
   = map (\<lambda>s. bullet @ '' '' @ s) (filter (\<lambda>s. 21 \<le> length (strip s))
       (concat (map (\<lambda>r. case or_snippet r of None \<Rightarrow> [] | Some s \<Rightarrow> [s]) (take 2 rs))))"
    using good_snippets_eq[of "bullet @ '' ''" "take 2 rs"] by simp
  then show ?thesis using Some
    by (cases rs) (simp_all add: inspect_organic_def spec_snippets_def Let_def)
qed

lemma inspect_eq: "inspect_response d = spec_inspect 21 d"
  by (simp add: inspect_response_def spec_inspect_def spec_direct_answer_def
      spec_knowledge_panel_def inspect_knowledge_graph_def inspect_organic_eq
      split: option.splits)

lemma search_attempts_prefix:
  "\<exists>k. snd (search_attempts p i qs sent) = sent @ take k qs"
proof (induction qs arbitrary: i sent)
  case Nil
  then show ?case by simp
next
  case (Cons q qs)
  show ?case
  proof (cases "attempt p i q")
    case None
    obtain k where "snd (search_attempts p (Suc i) qs (sent @ [q])) = (sent @ [q]) @ take k qs"
      using Cons.IH by blast
    then have "snd (search_attempts p i (q # qs) sent) = sent @ take (Suc k) (q # qs)"
      using None by simp
    then show ?thesis by blast
  next
    case (Some r)
    then have "snd (search_attempts p i (q # qs) sent) = sent @ take 1 (q # qs)" by simp
    then show ?thesis by blast
  qed
qed

lemma search_attempts_third:
  assumes "attempt p i q1 = None" "attempt p (Suc i) q2 = None" "attempt p (Suc (Suc i)) q3 = Some r"
  shows "search_attempts p i (q1 # q2 # q3 # qs) sent = (Some r, sent @ [q1, q2, q3])"
  using assms by simp

lemma search_attempts_all_fail:
  "(\<forall>j<length qs. attempt p (i + j) (qs ! j) = None) \<Longrightarrow>
     search_attempts p i qs sent = (None, sent @ qs)"
proof (induction qs arbitrary: i sent)
  case Nil
  then show ?case by simp
next
  case (Cons q qs)
  have a: "attempt p i q = None" using Cons.prems by force
  have "\<forall>j<length qs. attempt p (Suc i + j) (qs ! j) = None"
    using Cons.prems by force
  then have "search_attempts p (Suc i) qs (sent @ [q]) = (None, (sent @ [q]) @ qs)"
    by (rule Cons.IH)
  then show ?case using a by simp
qed

lemma take3: "py_take 3 (query_variations q) = [q, q @ '' definition'', ''what is '' @ q]"
  by (simp add: py_take_def query_variations_def)

lemma search_attempts_first_success:
  "k < length qs \<Longrightarrow> (\<forall>j<k. attempt p (i + j) (qs ! j) = None)
    \<Longrightarrow> attempt p (i + k) (qs ! k) = Some r
    \<Longrightarrow> search_attempts p i qs sent = (Some r, sent @ take (Suc k) qs)"
proof (induction qs arbitrary: i k sent)
  case Nil
  then show ?case by simp
next
  case (Cons q qs)
  show ?case
  proof (cases k)
    case 0
    then show ?thesis using Cons.prems by simp
  next
    case (Suc k')
    have a: "attempt p i q = None" using Cons.prems(2) Suc by force
    have "k' < length qs" using Cons.prems(1) Suc by simp
    moreover have "\<forall>j<k'. attempt p (Suc i + j) (qs ! j) = None"
      using Cons.prems(2) Suc by force
    moreover have "attempt p (Suc i + k') (qs ! k') = Some r" using Cons.prems(3) Suc by simp
    ultimately have "search_attempts p (Suc i) qs (sent @ [q]) = (Some r, (sent @ [q]) @ take (Suc k') qs)"
      by (rule Cons.IH)
    then show ?thesis using a Suc by simp
  qed
qed

lemma py_take_nat: "py_take (int n) xs = take n xs"
  by (simp add: py_take_def)

lemma query_variations_spec: "query_variations q = spec_variants q"
  by (simp add: query_variations_def spec_variants_def)

lemma attempt_silent: "attempt silent_provider i q = None"
  by (simp add: attempt_def silent_provider_def inspect_response_def
        inspect_knowledge_graph_def inspect_organic_def empty_data_def)

text \<open>
  Claim C5, as the code has it. With a key configured, the chain builds the five variants
  of the specification in their fixed order and sends only the first \<open>max_retries\<close> of
  them, strictly in that order, stopping at the first that yields a result. For every
  call that \<open>web_search\<close> makes \<open>max_retries\<close> is 3: the search sends the query, then
  "<query> definition" only if the first attempt yielded nothing, then
  "what is <query>" only if the second yielded nothing, and nothing else; so a provider
  that fails twice and then succeeds receives exactly three requests. For any
  \<open>max_retries = n\<close>: when attempt \<open>k\<close> is the first to yield, exactly the first
  \<open>k + 1\<close> variants are sent and its result is returned; when none of the first \<open>n\<close>
  yields, exactly these are sent and the result is \<open>None\<close>.
\<close>

theorem web_search_variants_in_order:
  assumes "key \<noteq> []"
  shows "web_search (Some key) p q =
           (case attempt p 0 q of
              Some r \<Rightarrow> (Some r, [q])
            | None \<Rightarrow>
                (case attempt p 1 (q @ '' definition'') of
                   Some r \<Rightarrow> (Some r, [q, q @ '' definition''])
                 | None \<Rightarrow>
                     (case attempt p 2 (''what is '' @ q) of
                        Some r \<Rightarrow> (Some r, [q, q @ '' definition'', ''what is '' @ q])
                      | None \<Rightarrow> (None, [q, q @ '' definition'', ''what is '' @ q]))))
       \<and> (k < min n 5 \<and> (\<forall>j<k. attempt p j (spec_variants q ! j) = None)
            \<and> attempt p k (spec_variants q ! k) = Some r
          \<longrightarrow> search_with_serpapi p q (int n) = (Some r, take (Suc k) (spec_variants q)))
       \<and> ((\<forall>j<min n' 5. attempt p' j (spec_variants q' ! j) = None)
          \<longrightarrow> search_with_serpapi p' q' (int n') = (None, take n' (spec_variants q')))"
proof -
  have w: "web_search (Some key) p q
             = search_attempts p 0 [q, q @ '' definition'', ''what is '' @ q] []"
    using assms by (simp add: web_search_def search_with_serpapi_def take3)
  have a: "web_search (Some key) p q =
           (case attempt p 0 q of
              Some r \<Rightarrow> (Some r, [q])
            | None \<Rightarrow>
                (case attempt p 1 (q @ '' definition'') of
                   Some r \<Rightarrow> (Some r, [q, q @ '' definition''])
                 | None \<Rightarrow>
                     (case attempt p 2 (''what is '' @ q) of
                        Some r \<Rightarrow> (Some r, [q, q @ '' definition'', ''what is '' @ q])
                      | None \<Rightarrow> (None, [q, q @ '' definition'', ''what is '' @ q]))))"
    unfolding w by (simp add: numeral_2_eq_2 split: option.splits)
  have len: "length (take n (spec_variants q)) = min n 5" for n q
    by (simp add: spec_variants_def min_def)
  have b: "search_with_serpapi p q (int n) = (Some r, take (Suc k) (spec_variants q))"
    if h: "k < min n 5" "\<forall>j<k. attempt p j (spec_variants q ! j) = None"
          "attempt p k (spec_variants q ! k) = Some r"
  proof -
    have k: "k < length (take n (spec_variants q))" using h(1) len by simp
    have "\<forall>j<k. attempt p (0 + j) (take n (spec_variants q) ! j) = None"
      using h(1,2) by simp
    moreover have "attempt p (0 + k) (take n (spec_variants q) ! k) = Some r"
      using h(1,3) by simp
    ultimately have "search_attempts p 0 (take n (spec_variants q)) []
                       = (Some r, [] @ take (Suc k) (take n (spec_variants q)))"
      using k by (intro search_attempts_first_success) auto
    moreover have "take (Suc k) (take n (spec_variants q)) = take (Suc k) (spec_variants q)"
      using h(1) by (simp add: min_def split: if_splits)
    ultimately show ?thesis
      by (simp add: search_with_serpapi_def py_take_nat query_variations_spec)
  qed
  have c: "search_with_serpapi p' q' (int n') = (None, take n' (spec_variants q'))"
    if h: "\<forall>j<min n' 5. attempt p' j (spec_variants q' ! j) = None"
  proof -
    have "\<forall>j<length (take n' (spec_variants q')). attempt p' (0 + j) (take n' (spec_variants q') ! j) = None"
      using h len by simp
    then have "search_attempts p' 0 (take n' (spec_variants q')) []
                 = (None, [] @ take n' (spec_variants q'))"
      by (rule search_attempts_all_fail)
    then show ?thesis
      by (simp add: search_with_serpapi_def py_take_nat query_variations_spec)
  qed
  show ?thesis using a b c by blast
qed

theorem web_search_variants_in_order_witness:
  "web_search (Some ''k'') (answering_provider ''what is ab'' ''yes'') ''ab''
     = (Some ''Direct answer: yes'', [''ab'', ''ab definition'', ''what is ab''])
   \<and> search_with_serpapi (answering_provider ''what is ab'' ''yes'') ''ab'' 3
     = (Some ''Direct answer: yes'', [''ab'', ''ab definition'', ''what is ab''])
   \<and> search_with_serpapi silent_provider ''ab'' 5
     = (None, [''ab'', ''ab definition'', ''what is ab'', ''ab explained'', ''ab''])"
proof -
  let ?p = "answering_provider ''what is ab'' ''yes''"
  have k: "''k'' \<noteq> []" by simp
  have a0: "attempt ?p 0 ''ab'' = None" and a1: "attempt ?p 1 (''ab'' @ '' definition'') = None"
    and a2: "attempt ?p 2 (''what is '' @ ''ab'') = Some ''Direct answer: yes''"
    by (simp_all add: attempt_def answering_provider_def inspect_response_def empty_data_def)
  have h1: "(2::nat) < min 3 5 \<and> (\<forall>j<2. attempt ?p j (spec_variants ''ab'' ! j) = None)
            \<and> attempt ?p 2 (spec_variants ''ab'' ! 2) = Some ''Direct answer: yes''"
    using a0 a1 a2 by (simp add: spec_variants_def less_Suc_eq numeral_2_eq_2)
  have h2: "\<forall>j<min 5 5. attempt silent_provider j (spec_variants ''ab'' ! j) = None"
    by (simp add: attempt_silent)
  have t: "take (Suc 2) (spec_variants ''ab'') = [''ab'', ''ab definition'', ''what is ab'']"
    "take 5 (spec_variants ''ab'') = [''ab'', ''ab definition'', ''what is ab'', ''ab explained'', ''ab'']"
    by (simp_all add: spec_variants_def)
  have i3: "int 3 = 3" and i5: "int 5 = 5" by simp_all
  from web_search_variants_in_order[OF k, of ?p "''ab''" 2 3 "''Direct answer: yes''" 5
         silent_provider "''ab''"]
  show ?thesis
    using h1 h2 a0 a1 a2 unfolding t i3 i5 by simp
qed

text \<open>
  The claim as written has up to four variants generated and attempted. The list has
  five entries; \<open>web_search\<close> never sends the fourth, even when it is the only one the
  provider would answer; and the function itself sends all five when asked for five.
\<close>

theorem web_search_fourth_variant_counterexample:
  "length (query_variations ''ab'') = 5
   \<and> web_search (Some ''k'') (answering_provider ''ab explained'' ''yes'') ''ab''
       = (None, [''ab'', ''ab definition'', ''what is ab''])
   \<and> length (snd (search_with_serpapi silent_provider ''ab'' 5)) = 5"
  by (simp add: query_variations_def web_search_def search_with_serpapi_def py_take_def
        attempt_def answering_provider_def silent_provider_def inspect_response_def
        inspect_knowledge_graph_def inspect_organic_def empty_data_def)

text \<open>
  Claim C6, as the code has it. For one payload the chain takes, in this order, the
  direct answer (the answer field of the answer box, else its snippet), the
  knowledge-panel description, and the snippets of the first two organic results whose
  trimmed length is greater than 20 characters (at least 21); and the loop returns at
  once on the first variant that yields any of these.
\<close>

theorem inspect_response_priority:
  "inspect_response d = spec_inspect 21 d
   \<and> (attempt p i q = Some r \<longrightarrow> search_attempts p i (q # qs) sent = (Some r, sent @ [q]))"
  by (simp add: inspect_response_def spec_inspect_def spec_direct_answer_def
      spec_knowledge_panel_def inspect_knowledge_graph_def inspect_organic_eq
      split: option.splits)

theorem inspect_response_priority_witness:
  "search_attempts (answering_provider ''ab'' ''yes'') 0 (''ab'' # [''ab definition'']) []
     = (Some ''Direct answer: yes'', [] @ [''ab''])"
proof -
  have h: "attempt (answering_provider ''ab'' ''yes'') 0 ''ab'' = Some ''Direct answer: yes''"
    by (simp add: attempt_def answering_provider_def inspect_response_def empty_data_def)
  show ?thesis
    using inspect_response_priority[of empty_data "answering_provider ''ab'' ''yes''" 0 "''ab''"
            "''Direct answer: yes''" "[''ab definition'']" "[]"] h
    by blast
qed

text \<open>
  The claim as written lets a snippet of exactly 20 characters qualify; the code's test
  is \<open>len(...) > 20\<close>, so it does not, while one of 21 characters does.
\<close>

theorem snippet_of_twenty_counterexample:
  "length (strip ''12345678901234567890'') = 20
   \<and> inspect_response (snippet_data ''12345678901234567890'') = None
   \<and> spec_inspect 20 (snippet_data ''12345678901234567890'') \<noteq> None
   \<and> inspect_response (snippet_data ''123456789012345678901'') \<noteq> None"
  by (simp add: inspect_response_def inspect_knowledge_graph_def inspect_organic_def
        snippet_data_def empty_data_def snippet_ok_def strip_def is_space_def
        spec_inspect_def spec_direct_answer_def spec_knowledge_panel_def spec_snippets_def)

text \<open>
  Claim C7 at its failing input. With a key configured and a provider whose three
  payloads hold nothing usable, or whose three requests all raise, the search sends the
  three variants and then returns Python's \<open>None\<close>, not a text.
\<close>

theorem web_search_exhausted_returns_none:
  "web_search (Some ''k'') silent_provider ''x'' = (None, [''x'', ''x definition'', ''what is x''])
   \<and> web_search (Some ''k'') failing_provider ''x'' = (None, [''x'', ''x definition'', ''what is x''])"
  by (simp add: web_search_def search_with_serpapi_def py_take_def query_variations_def
        attempt_def silent_provider_def failing_provider_def inspect_response_def
        inspect_knowledge_graph_def inspect_organic_def empty_data_def)

section \<open>Verification without a search key\<close>

lemma queries_four:
  "\<exists>q1 q2 q3 q4. generate_verification_queries d = [q1, q2, q3, q4]"
  by (simp add: generate_verification_queries_def Let_def)

lemma web_search_tool_no_key:
  "serpapi_key = None \<or> serpapi_key = Some [] \<Longrightarrow> web_search_tool serpapi_key p q = Some no_key_message"
  by (auto simp: web_search_tool_def web_search_def)

lemma no_key_message_numbers: "find_numbers no_key_message = []"
  by (simp add: no_key_message_def is_digit_or_comma_def is_digit_def)

lemma no_key_message_valid: "\<not> sub_in ''Search failed'' no_key_message"
  by (simp add: no_key_message_def)

lemma no_key_message_short: "\<not> length no_key_message > 200"
  by (simp add: no_key_message_def)

lemma str_nat_digits:
  "str_nat 1 = ''1''" "str_nat 2 = ''2''" "str_nat 3 = ''3''" "str_nat 4 = ''4''"
  by code_simp+

lemma str_nat_sucs:
  "str_nat (Suc 0) = ''1''" "str_nat (Suc (Suc 0)) = ''2''"
  "str_nat (Suc (Suc (Suc 0))) = ''3''" "str_nat (Suc (Suc (Suc (Suc 0)))) = ''4''"
  using str_nat_digits by (simp_all add: numeral_eq_Suc)

lemma source_lines_no_key:
  assumes "search = (\<lambda>q. Some no_key_message)"
  shows "source_lines (run_searches search 1 [q1, q2, q3, q4]) =
     Inr ([glyph_chart @ '' Source 1: '' @ q1, replicate 30 CHR ''-'',
           ''Excerpt: '' @ no_key_message, [],
           glyph_chart @ '' Source 2: '' @ q2, replicate 30 CHR ''-'',
           ''Excerpt: '' @ no_key_message, [],
           glyph_chart @ '' Source 3: '' @ q3, replicate 30 CHR ''-'',
           ''Excerpt: '' @ no_key_message, [],
           glyph_chart @ '' Source 4: '' @ q4, replicate 30 CHR ''-'',
           ''Excerpt: '' @ no_key_message, []],
          [no_key_message, no_key_message, no_key_message, no_key_message])"
  unfolding assms
  by (simp add: no_key_message_numbers no_key_message_valid no_key_message_short
        str_nat_sucs)

lemma analysis_lines_no_key:
  "analysis_lines set_order [no_key_message, no_key_message, no_key_message, no_key_message]
     = [glyph_check @ '' Successfully verified with 4 sources'']"
  by (simp add: analysis_lines_def no_key_message_numbers str_nat_sucs)

text \<open>
  Claim C10. When no key is configured (the variable is unset or empty), every search
  that \<open>verify_result\<close> makes returns the text "No SerpAPI key found". None of these
  holds "Search failed", so all four count as valid sources; none holds a digit or a
  comma, so no numbers are extracted. For every description the report is the one
  below (\<open>no_key_message\<close> is that text): four source blocks with it as excerpt, then the single analysis line
  "Successfully verified with 4 sources".
\<close>

theorem verify_result_without_key:
  assumes "serpapi_key = None \<or> serpapi_key = Some []"
  shows "web_search_tool serpapi_key p q = Some no_key_message
       \<and> (\<exists>q1 q2 q3 q4.
             generate_verification_queries d = [q1, q2, q3, q4]
           \<and> verify_result (web_search_tool serpapi_key p) set_order d =
               join_str [newline]
                 [glyph_magnifier @ '' MULTI-SOURCE VERIFICATION REPORT'',
                  replicate 50 CHR ''='',
                  ''Original Query: '' @ d,
                  [],
                  glyph_chart @ '' Source 1: '' @ q1, replicate 30 CHR ''-'',
                  ''Excerpt: '' @ no_key_message, [],
                  glyph_chart @ '' Source 2: '' @ q2, replicate 30 CHR ''-'',
                  ''Excerpt: '' @ no_key_message, [],
                  glyph_chart @ '' Source 3: '' @ q3, replicate 30 CHR ''-'',
                  ''Excerpt: '' @ no_key_message, [],
                  glyph_chart @ '' Source 4: '' @ q4, replicate 30 CHR ''-'',
                  ''Excerpt: '' @ no_key_message, [],
                  glyph_target @ '' VERIFICATION ANALYSIS:'',
                  replicate 30 CHR ''-'',
                  glyph_check @ '' Successfully verified with 4 sources'',
                  [],
                  glyph_bulb @ '' RECOMMENDATION:'',
                  ''Compare your result with the findings above. If there's significant discrepancy,'',
                  ''note the range of values found rather than seeking additional sources.'',
                  ''For most questions, this level of verification is sufficient to proceed with confidence.''])"
proof -
  have ws: "web_search_tool serpapi_key p = (\<lambda>q. Some no_key_message)"
    using assms web_search_tool_no_key by blast
  obtain q1 q2 q3 q4 where qs: "generate_verification_queries d = [q1, q2, q3, q4]"
    using queries_four by blast
  have sl: "source_lines (run_searches (web_search_tool serpapi_key p) 1 [q1, q2, q3, q4]) =
     Inr ([glyph_chart @ '' Source 1: '' @ q1, replicate 30 CHR ''-'',
           ''Excerpt: '' @ no_key_message, [],
           glyph_chart @ '' Source 2: '' @ q2, replicate 30 CHR ''-'',
           ''Excerpt: '' @ no_key_message, [],
           glyph_chart @ '' Source 3: '' @ q3, replicate 30 CHR ''-'',
           ''Excerpt: '' @ no_key_message, [],
           glyph_chart @ '' Source 4: '' @ q4, replicate 30 CHR ''-'',
           ''Excerpt: '' @ no_key_message, []],
          [no_key_message, no_key_message, no_key_message, no_key_message])"
    using ws by (rule source_lines_no_key)
  have "verify_result (web_search_tool serpapi_key p) set_order d =
               join_str [newline]
                 [glyph_magnifier @ '' MULTI-SOURCE VERIFICATION REPORT'',
                  replicate 50 CHR ''='',
                  ''Original Query: '' @ d,
                  [],
                  glyph_chart @ '' Source 1: '' @ q1, replicate 30 CHR ''-'',
                  ''Excerpt: '' @ no_key_message, [],
                  glyph_chart @ '' Source 2: '' @ q2, replicate 30 CHR ''-'',
                  ''Excerpt: '' @ no_key_message, [],
                  glyph_chart @ '' Source 3: '' @ q3, replicate 30 CHR ''-'',
                  ''Excerpt: '' @ no_key_message, [],
                  glyph_chart @ '' Source 4: '' @ q4, replicate 30 CHR ''-'',
                  ''Excerpt: '' @ no_key_message, [],
                  glyph_target @ '' VERIFICATION ANALYSIS:'',
                  replicate 30 CHR ''-'',
                  glyph_check @ '' Successfully verified with 4 sources'',
                  [],
                  glyph_bulb @ '' RECOMMENDATION:'',
                  ''Compare your result with the findings above. If there's significant discrepancy,'',
                  ''note the range of values found rather than seeking additional sources.'',
                  ''For most questions, this level of verification is sufficient to proceed with confidence.'']"
    unfolding verify_result_def analyze_verification_results_def report_lines_def Let_def qs sl
    by (simp only: sum.case prod.case analysis_lines_no_key append_Cons append_Nil)
  then show ?thesis
    using qs web_search_tool_no_key[OF assms] by blast
qed

theorem verify_result_without_key_witness:
  "web_search_tool None silent_provider ''verify check validate GE90 thrust'' = Some no_key_message
   \<and> (\<exists>q1 q2 q3 q4.
             generate_verification_queries ''GE90 thrust'' = [q1, q2, q3, q4]
           \<and> verify_result (web_search_tool None silent_provider) remdups ''GE90 thrust'' =
               join_str [newline]
                 [glyph_magnifier @ '' MULTI-SOURCE VERIFICATION REPORT'',
                  replicate 50 CHR ''='',
                  ''Original Query: '' @ ''GE90 thrust'',
                  [],
                  glyph_chart @ '' Source 1: '' @ q1, replicate 30 CHR ''-'',
                  ''Excerpt: '' @ no_key_message, [],
                  glyph_chart @ '' Source 2: '' @ q2, replicate 30 CHR ''-'',
                  ''Excerpt: '' @ no_key_message, [],
                  glyph_chart @ '' Source 3: '' @ q3, replicate 30 CHR ''-'',
                  ''Excerpt: '' @ no_key_message, [],
                  glyph_chart @ '' Source 4: '' @ q4, replicate 30 CHR ''-'',
                  ''Excerpt: '' @ no_key_message, [],
                  glyph_target @ '' VERIFICATION ANALYSIS:'',
                  replicate 30 CHR ''-'',
                  glyph_check @ '' Successfully verified with 4 sources'',
                  [],
                  glyph_bulb @ '' RECOMMENDATION:'',
                  ''Compare your result with the findings above. If there's significant discrepancy,'',
                  ''note the range of values found rather than seeking additional sources.'',
                  ''For most questions, this level of verification is sufficient to proceed with confidence.''])"
proof -
  have h: "(None :: string option) = None \<or> (None :: string option) = Some []" by simp
  show ?thesis
    by (rule verify_result_without_key[OF h])
qed

section \<open>Deduplication in the chat history export\<close>

lemma unique_loop_subset: "set (unique_loop seen ms) \<subseteq> set ms"
  by (induction ms arbitrary: seen) auto

lemma unique_loop_count:
  "length (filter (\<lambda>u. message_key u = k) (unique_loop seen ms))
     = (if k \<notin> seen \<and> k \<in> message_key ` set ms then 1 else 0)"
proof (induction ms arbitrary: seen)
  case Nil
  then show ?case by simp
next
  case (Cons m ms)
  show ?case
  proof (cases "message_key m \<in> seen")
    case True
    then show ?thesis using Cons.IH[of seen] by auto
  next
    case False
    then show ?thesis using Cons.IH[of "insert (message_key m) seen"] by auto
  qed
qed

lemma message_key_eq:
  "(message_key u = (r, c)) \<longleftrightarrow>
     ((case msg_role u of None \<Rightarrow> [] | Some x \<Rightarrow> x) = r
      \<and> (case msg_content u of None \<Rightarrow> [] | Some x \<Rightarrow> x) = c)"
  by (simp add: message_key_def)

lemma format_loop_entry_lines:
  "filter (prefix ''['') (format_loop lib cur ms) =
     map (\<lambda>m. ''['' @
               (case (case msg_timestamp m of
                        TsDatetime dt \<Rightarrow> Some dt
                      | TsText s \<Rightarrow> fromisoformat lib (replace_str ''Z'' ''+00:00'' s)
                      | TsAbsent \<Rightarrow> None) of
                  Some dt \<Rightarrow> strftime_time lib dt
                | None \<Rightarrow> (case msg_timestamp m of TsText s \<Rightarrow> s | _ \<Rightarrow> ''None''))
               @ ''] '' @ str_upper lib (case msg_role m of None \<Rightarrow> ''unknown'' | Some x \<Rightarrow> x)
               @ '': '' @ (case msg_content m of None \<Rightarrow> [] | Some x \<Rightarrow> x) @ [newline]) ms"
proof (induction ms arbitrary: cur)
  case Nil
  then show ?case by simp
next
  case (Cons m ms)
  have h: "\<not> prefix ''['' ([newline] @ ''[Date: '' @ d @ '']'' @ [newline])" for d
    by (simp add: newline_def)
  show ?case
    using Cons.IH h by (simp add: Let_def split: option.splits)
qed

text \<open>
  Claim C9. For every chat history and every pair of a role text and a content text,
  the messages that are formatted are messages of the history, and exactly one of them
  carries that pair when some message of the history does (none otherwise), however
  many messages of the history carry it and whatever their ids and timestamps are. The
  role and content of a message are read with the default "" for a missing key. The
  entry lines of the export, the pieces that start with the bracket of the time
  stamp, are exactly the lines "[time] ROLE: content" of the formatted messages, one
  per message and in their order; the export is the title followed by the date headers
  and these lines.
\<close>

theorem export_one_entry_per_role_content:
  "set (unique_messages lib chat_history) \<subseteq> set chat_history
   \<and> length (filter (\<lambda>u. (case msg_role u of None \<Rightarrow> [] | Some x \<Rightarrow> x) = r
                         \<and> (case msg_content u of None \<Rightarrow> [] | Some x \<Rightarrow> x) = c)
               (unique_messages lib chat_history))
       = (if (r, c) \<in> (\<lambda>m. ((case msg_role m of None \<Rightarrow> [] | Some x \<Rightarrow> x),
                               (case msg_content m of None \<Rightarrow> [] | Some x \<Rightarrow> x)))
                          ` set chat_history
          then 1 else 0)
   \<and> filter (prefix ''['') (formatted_history lib chat_history) =
       map (\<lambda>m. ''['' @
               (case (case msg_timestamp m of
                        TsDatetime dt \<Rightarrow> Some dt
                      | TsText s \<Rightarrow> fromisoformat lib (replace_str ''Z'' ''+00:00'' s)
                      | TsAbsent \<Rightarrow> None) of
                  Some dt \<Rightarrow> strftime_time lib dt
                | None \<Rightarrow> (case msg_timestamp m of TsText s \<Rightarrow> s | _ \<Rightarrow> ''None''))
               @ ''] '' @ str_upper lib (case msg_role m of None \<Rightarrow> ''unknown'' | Some x \<Rightarrow> x)
               @ '': '' @ (case msg_content m of None \<Rightarrow> [] | Some x \<Rightarrow> x) @ [newline])
         (unique_messages lib chat_history)
   \<and> format_chat_history_for_email lib chat_history
       = ''=== CHAT HISTORY ==='' @ [newline]
         @ concat (format_loop lib None (unique_messages lib chat_history))"
proof -
  have s: "set (sorted_history lib chat_history) = set chat_history"
    by (simp add: sorted_history_def)
  have a: "set (unique_messages lib chat_history) \<subseteq> set chat_history"
    using unique_loop_subset[of "{}" "sorted_history lib chat_history"] s
    by (simp add: unique_messages_def)
  have "length (filter (\<lambda>u. message_key u = (r, c)) (unique_messages lib chat_history))
          = (if (r, c) \<in> message_key ` set chat_history then 1 else 0)"
    using unique_loop_count[of "(r, c)" "{}" "sorted_history lib chat_history"] s
    by (simp add: unique_messages_def)
  moreover have "message_key ` set chat_history
      = (\<lambda>m. ((case msg_role m of None \<Rightarrow> [] | Some x \<Rightarrow> x),
                (case msg_content m of None \<Rightarrow> [] | Some x \<Rightarrow> x))) ` set chat_history"
    by (rule image_cong) (simp_all add: message_key_def)
  ultimately have b: "length (filter (\<lambda>u. (case msg_role u of None \<Rightarrow> [] | Some x \<Rightarrow> x) = r
                         \<and> (case msg_content u of None \<Rightarrow> [] | Some x \<Rightarrow> x) = c)
               (unique_messages lib chat_history))
       = (if (r, c) \<in> (\<lambda>m. ((case msg_role m of None \<Rightarrow> [] | Some x \<Rightarrow> x),
                               (case msg_content m of None \<Rightarrow> [] | Some x \<Rightarrow> x)))
                          ` set chat_history
          then 1 else 0)"
    by (simp only: message_key_eq)
  have t: "\<not> prefix ''['' (''=== CHAT HISTORY ==='' @ [newline])" by simp
  have c: "filter (prefix ''['') (formatted_history lib chat_history)
             = filter (prefix ''['') (format_loop lib None (unique_messages lib chat_history))"
    unfolding formatted_history_def using t by simp
  have d: "format_chat_history_for_email lib chat_history
       = ''=== CHAT HISTORY ==='' @ [newline]
         @ concat (format_loop lib None (unique_messages lib chat_history))"
    by (simp add: format_chat_history_for_email_def formatted_history_def)
  show ?thesis
    using a b d unfolding c format_loop_entry_lines by blast
qed

text \<open>An example: two messages with the same role and content but different ids and
  timestamps, and a third with another role; the export has two entries.\<close>

lemma export_example:
  "formatted_history plain_lib example_history =
     [''=== CHAT HISTORY ==='' @ [newline],
      ''[t1] USER: hi'' @ [newline], ''[t2] ASSISTANT: hi'' @ [newline]]"
  by code_simp

end
